theory Spec2Isabelle
  imports Main
begin

section \<open>Data model\<close>

text \<open>
  Python text is a sequence of Unicode code points; a code point is a natural number.
  The \<open>utf8_text\<close> payload of a text box is kept decoded: encoding and decoding
  are inverse to each other on the texts the builder produces.
\<close>

type_synonym unicode = "nat list"

abbreviation TAB :: nat where "TAB \<equiv> 9"
abbreviation NEWLINE :: nat where "NEWLINE \<equiv> 10"
abbreviation CR :: nat where "CR \<equiv> 13"
abbreviation SPACE :: nat where "SPACE \<equiv> 32"
abbreviation NBSP :: nat where "NBSP \<equiv> 160"
abbreviation ZWSP :: nat where "ZWSP \<equiv> 8203"
abbreviation BULLET :: nat where "BULLET \<equiv> 8226"
abbreviation WHITE_BULLET :: nat where "WHITE_BULLET \<equiv> 9702"
abbreviation BLACK_SMALL_SQUARE :: nat where "BLACK_SMALL_SQUARE \<equiv> 9642"

type_synonym surface = nat

datatype image_value = ImageNone | ImageUri string

record style =
  display :: string
  white_space :: string
  list_style_image :: image_value
  list_style_type :: string
  list_style_position :: string

text \<open>
  The back-reference of a box: the identity of the source element and the style the
  style provider computed for it.
\<close>

record elem =
  element_id :: nat
  style :: style

text \<open>
  An lxml node. Comments and processing instructions are nodes whose tag is not a
  string (\<open>tag = None\<close>); they have a tail like every node.
\<close>

datatype element =
  Element (tag: "string option") (ref: elem) (etext: unicode) (etail: unicode)
    (children: "element list")

text \<open>
  Modelled from the spec: the box variants of the module \<open>boxes\<close> and their category
  predicates (section 3 of the specification). A block box has an optional outside
  list marker, which is not one of its children.
\<close>

datatype box =
    TextBox elem unicode
  | ImageMarkerBox elem surface
  | InlineBox elem "box list"
  | InlineBlockBox elem "box list"
  | BlockBox elem "box option" "box list"
  | AnonymousBlockBox elem "box list"
  | LineBox elem "box list"

fun is_ParentBox :: "box \<Rightarrow> bool" where
  "is_ParentBox (TextBox e t) = False"
| "is_ParentBox (ImageMarkerBox e s) = False"
| "is_ParentBox b = True"

fun is_BlockLevelBox :: "box \<Rightarrow> bool" where
  "is_BlockLevelBox (BlockBox e m cs) = True"
| "is_BlockLevelBox (AnonymousBlockBox e cs) = True"
| "is_BlockLevelBox b = False"

fun is_BlockContainerBox :: "box \<Rightarrow> bool" where
  "is_BlockContainerBox (BlockBox e m cs) = True"
| "is_BlockContainerBox (AnonymousBlockBox e cs) = True"
| "is_BlockContainerBox (InlineBlockBox e cs) = True"
| "is_BlockContainerBox b = False"

fun is_LineBox :: "box \<Rightarrow> bool" where
  "is_LineBox (LineBox e cs) = True"
| "is_LineBox b = False"

fun is_InlineBox :: "box \<Rightarrow> bool" where
  "is_InlineBox (InlineBox e cs) = True"
| "is_InlineBox b = False"

fun is_TextBox :: "box \<Rightarrow> bool" where
  "is_TextBox (TextBox e t) = True"
| "is_TextBox b = False"

fun box_element :: "box \<Rightarrow> elem" where
  "box_element (TextBox e t) = e"
| "box_element (ImageMarkerBox e s) = e"
| "box_element (InlineBox e cs) = e"
| "box_element (InlineBlockBox e cs) = e"
| "box_element (BlockBox e m cs) = e"
| "box_element (AnonymousBlockBox e cs) = e"
| "box_element (LineBox e cs) = e"

fun box_children :: "box \<Rightarrow> box list" where
  "box_children (InlineBox e cs) = cs"
| "box_children (InlineBlockBox e cs) = cs"
| "box_children (BlockBox e m cs) = cs"
| "box_children (AnonymousBlockBox e cs) = cs"
| "box_children (LineBox e cs) = cs"
| "box_children b = []"

text \<open>
  The state of a parent box after its list of children is replaced; a leaf has no
  children to replace.
\<close>

fun set_children :: "box \<Rightarrow> box list \<Rightarrow> box" where
  "set_children (InlineBox e cs) ds = InlineBox e ds"
| "set_children (InlineBlockBox e cs) ds = InlineBlockBox e ds"
| "set_children (BlockBox e m cs) ds = BlockBox e m ds"
| "set_children (AnonymousBlockBox e cs) ds = AnonymousBlockBox e ds"
| "set_children (LineBox e cs) ds = LineBox e ds"
| "set_children b ds = b"

definition add_child :: "box \<Rightarrow> box \<Rightarrow> box" where
  "add_child b c = set_children b (box_children b @ [c])"

definition empty :: "box \<Rightarrow> box" where
  "empty b = set_children b []"

datatype error =
    NotImplementedError string
  | KeyError string
  | AssertionError
  | AttributeError

section \<open>TreeBuilder and ListMarkerInserter\<close>

definition GLYPH_LIST_MARKERS :: "string \<Rightarrow> unicode option" where
  "GLYPH_LIST_MARKERS k =
     (if k = ''disc'' then Some [BULLET]
      else if k = ''circle'' then Some [WHITE_BULLET]
      else if k = ''square'' then Some [BLACK_SMALL_SQUARE]
      else None)"

text \<open>
  \<open>marker_for\<close> is the first half of \<open>add_list_marker\<close>: the marker box, \<open>None\<close> where
  the function returns early without a marker.
\<close>

definition marker_for :: "(string \<Rightarrow> surface option) \<Rightarrow> elem \<Rightarrow> error + box option" where
  "marker_for get_image_surface_from_uri e =
     (let surface = (case list_style_image (style e) of
                       ImageUri uri \<Rightarrow> get_image_surface_from_uri uri
                     | ImageNone \<Rightarrow> None)
      in case surface of
           None \<Rightarrow>
             (let type = list_style_type (style e)
              in if type = ''none'' then Inr None
                 else case GLYPH_LIST_MARKERS type of
                        None \<Rightarrow> Inl (KeyError type)
                      | Some marker \<Rightarrow> Inr (Some (TextBox e marker)))
         | Some s \<Rightarrow> Inr (Some (ImageMarkerBox e s)))"

text \<open>
  The only caller passes a block box; the outside marker is a field of block boxes
  only, so other boxes are returned as they are.
\<close>

fun add_list_marker :: "(string \<Rightarrow> surface option) \<Rightarrow> box \<Rightarrow> error + box" where
  "add_list_marker get_image_surface_from_uri (BlockBox e m cs) =
     (case marker_for get_image_surface_from_uri e of
        Inl err \<Rightarrow> Inl err
      | Inr None \<Rightarrow> Inr (BlockBox e m cs)
      | Inr (Some marker_box) \<Rightarrow>
          (let position = list_style_position (style e)
           in if position = ''inside'' then
                (if cs \<noteq> [] then Inl AssertionError
                 else Inr (add_child (add_child (BlockBox e m cs) marker_box)
                             (TextBox e [NBSP])))
              else if position = ''outside'' then Inr (BlockBox e (Some marker_box) cs)
              else Inr (BlockBox e m cs)))"
| "add_list_marker get_image_surface_from_uri b = Inr b"

definition make_box :: "(string \<Rightarrow> surface option) \<Rightarrow> elem \<Rightarrow> error + box" where
  "make_box get_image_surface_from_uri e =
     (let d = display (style e)
      in if d = ''block'' \<or> d = ''list-item'' then
           (if d = ''list-item'' then
              add_list_marker get_image_surface_from_uri (BlockBox e None [])
            else Inr (BlockBox e None []))
         else if d = ''inline'' then Inr (InlineBox e [])
         else if d = ''inline-block'' then Inr (InlineBlockBox e [])
         else Inl (NotImplementedError (''Unsupported display: '' @ d)))"

text \<open>
  \<open>handle_element\<close> is the hook of the module \<open>html\<close>: \<open>None\<close> is its answer
  \<open>DEFAULT_HANDLING\<close>. \<open>dom_to_box_children\<close> is the loop over the child nodes,
  with the box under construction as its state.
\<close>

fun dom_to_box ::
    "(element \<Rightarrow> box option) \<Rightarrow> (string \<Rightarrow> surface option) \<Rightarrow> element \<Rightarrow> error + box option"
  and dom_to_box_children ::
    "(element \<Rightarrow> box option) \<Rightarrow> (string \<Rightarrow> surface option) \<Rightarrow> elem \<Rightarrow> element list \<Rightarrow> box
       \<Rightarrow> error + box option"
where
  "dom_to_box handle_element resolve (Element tg e txt ta cs) =
     (if display (style e) = ''none'' then Inr None
      else case handle_element (Element tg e txt ta cs) of
             Some result \<Rightarrow> Inr (Some result)
           | None \<Rightarrow>
               (case make_box resolve e of
                  Inl err \<Rightarrow> Inl err
                | Inr box \<Rightarrow>
                    dom_to_box_children handle_element resolve e cs
                      (if txt \<noteq> [] then add_child box (TextBox e txt) else box)))"
| "dom_to_box_children handle_element resolve e [] box = Inr (Some box)"
| "dom_to_box_children handle_element resolve e (child_element # rest) box =
     (case (if tag child_element \<noteq> None then
              (case dom_to_box handle_element resolve child_element of
                 Inl err \<Rightarrow> Inl err
               | Inr None \<Rightarrow> Inr box
               | Inr (Some child_box) \<Rightarrow> Inr (add_child box child_box))
            else Inr box) of
        Inl err \<Rightarrow> Inl err
      | Inr box' \<Rightarrow>
          dom_to_box_children handle_element resolve e rest
            (if etail child_element \<noteq> [] then add_child box' (TextBox e (etail child_element))
             else box'))"

section \<open>WhitespaceCollapser\<close>

text \<open>
  \<open>re.sub('[\t\r ]*\n[\t\r ]*', '\n', text)\<close>: the leftmost match at a position is the run
  of tabs, carriage returns and spaces there, when a newline follows it, with the run
  after the newline; where no newline follows the run, no position inside it starts a
  match, and the run and the character after it are copied.
\<close>

definition is_tab_cr_space :: "nat \<Rightarrow> bool" where
  "is_tab_cr_space c = (c = TAB \<or> c = CR \<or> c = SPACE)"

function sub_around_newline :: "unicode \<Rightarrow> unicode" where
  "sub_around_newline t =
     (case dropWhile is_tab_cr_space t of
        [] \<Rightarrow> t
      | c # rest \<Rightarrow>
          if c = NEWLINE then NEWLINE # sub_around_newline (dropWhile is_tab_cr_space rest)
          else takeWhile is_tab_cr_space t @ c # sub_around_newline rest)"
  by pat_completeness auto
termination
proof (relation "measure length", goal_cases)
  case 1
  show ?case by simp
next
  case (2 t c rest)
  have "length (dropWhile is_tab_cr_space t) \<le> length t" by (rule length_dropWhile_le)
  moreover have "length (dropWhile is_tab_cr_space rest) \<le> length rest"
    by (rule length_dropWhile_le)
  ultimately show ?case using 2 by simp
next
  case (3 t c rest)
  have "length (dropWhile is_tab_cr_space t) \<le> length t" by (rule length_dropWhile_le)
  then show ?case using 3 by simp
qed

text \<open>\<open>text.replace(old, new)\<close> for single characters.\<close>

definition replace :: "nat \<Rightarrow> nat \<Rightarrow> unicode \<Rightarrow> unicode" where
  "replace old new t = map (\<lambda>c. if c = old then new else c) t"

text \<open>
  \<open>re.sub(u'\xA0([^\xA0]|$)', u'\xA0\u200B\\1', text)\<close>: a no-break space matches with
  the character after it when that is not a no-break space (the character is consumed
  and copied after the marker), or alone at the end of the text.
\<close>

fun sub_break_opportunity :: "unicode \<Rightarrow> unicode" where
  "sub_break_opportunity [] = []"
| "sub_break_opportunity [c] = (if c = NBSP then [NBSP, ZWSP] else [c])"
| "sub_break_opportunity (c # d # rest) =
     (if c = NBSP then
        (if d \<noteq> NBSP then NBSP # ZWSP # d # sub_break_opportunity rest
         else NBSP # sub_break_opportunity (d # rest))
      else c # sub_break_opportunity (d # rest))"

text \<open>\<open>re.sub(' +', ' ', text)\<close>.\<close>

function sub_spaces :: "unicode \<Rightarrow> unicode" where
  "sub_spaces [] = []"
| "sub_spaces (c # rest) =
     (if c = SPACE then SPACE # sub_spaces (dropWhile (\<lambda>x. x = SPACE) rest)
      else c # sub_spaces rest)"
  by pat_completeness auto
termination
proof (relation "measure length", goal_cases)
  case 1
  show ?case by simp
next
  case (2 c rest)
  have "length (dropWhile (\<lambda>x. x = SPACE) rest) \<le> length rest" by (rule length_dropWhile_le)
  then show ?case by simp
next
  case (3 c rest)
  show ?case by simp
qed

declare sub_around_newline.simps [simp del] sub_spaces.simps [simp del]

definition startswith_space :: "unicode \<Rightarrow> bool" where
  "startswith_space t = (case t of [] \<Rightarrow> False | c # rest \<Rightarrow> c = SPACE)"

definition endswith_space :: "unicode \<Rightarrow> bool" where
  "endswith_space t = (t \<noteq> [] \<and> last t = SPACE)"

text \<open>
  The body of the loop of \<open>process_whitespace\<close> for one text box: from the value of
  \<open>white-space\<close>, the flag \<open>following_collapsible_space\<close> and the text, the new text and
  the new flag.
\<close>

definition process_text :: "string \<Rightarrow> bool \<Rightarrow> unicode \<Rightarrow> unicode \<times> bool" where
  "process_text handling following_collapsible_space text0 =
     (let text1 = (if handling = ''normal'' \<or> handling = ''nowrap'' \<or> handling = ''pre-line''
                   then sub_around_newline text0 else text0);
          text2 = (if handling = ''pre'' \<or> handling = ''pre-wrap'' then
                     (let t = replace SPACE NBSP text1
                      in if handling = ''pre-wrap'' then sub_break_opportunity t else t)
                   else if handling = ''normal'' \<or> handling = ''nowrap'' then
                     replace NEWLINE SPACE text1
                   else text1)
      in if handling = ''normal'' \<or> handling = ''nowrap'' \<or> handling = ''pre-line'' then
           (let text3 = sub_spaces (replace TAB SPACE text2);
                text4 = (if following_collapsible_space \<and> startswith_space text3
                         then tl text3 else text3)
            in (text4, endswith_space text4))
         else (text2, False))"

text \<open>
  Modelled from the spec: \<open>descendants\<close> of the module \<open>boxes\<close> yields the box, then the
  descendants of each child in order; an outside list marker is not a child and is not
  visited. \<open>process_descendants\<close> is the loop over it, with the flag as state and the
  texts replaced in place.
\<close>

fun process_descendants :: "bool \<Rightarrow> box \<Rightarrow> box \<times> bool"
  and process_descendants_list :: "bool \<Rightarrow> box list \<Rightarrow> box list \<times> bool"
where
  "process_descendants fl (TextBox e t) =
     (if t \<noteq> [] then
        (case process_text (white_space (style e)) fl t of (t', fl') \<Rightarrow> (TextBox e t', fl'))
      else (TextBox e t, fl))"
| "process_descendants fl (ImageMarkerBox e s) = (ImageMarkerBox e s, fl)"
| "process_descendants fl (InlineBox e cs) =
     (case process_descendants_list fl cs of (cs', fl') \<Rightarrow> (InlineBox e cs', fl'))"
| "process_descendants fl (InlineBlockBox e cs) =
     (case process_descendants_list fl cs of (cs', fl') \<Rightarrow> (InlineBlockBox e cs', fl'))"
| "process_descendants fl (BlockBox e m cs) =
     (case process_descendants_list fl cs of (cs', fl') \<Rightarrow> (BlockBox e m cs', fl'))"
| "process_descendants fl (AnonymousBlockBox e cs) =
     (case process_descendants_list fl cs of (cs', fl') \<Rightarrow> (AnonymousBlockBox e cs', fl'))"
| "process_descendants fl (LineBox e cs) =
     (case process_descendants_list fl cs of (cs', fl') \<Rightarrow> (LineBox e cs', fl'))"
| "process_descendants_list fl [] = ([], fl)"
| "process_descendants_list fl (c # cs) =
     (case process_descendants fl c of
        (c', fl') \<Rightarrow>
          (case process_descendants_list fl' cs of (cs', fl'') \<Rightarrow> (c' # cs', fl'')))"

text \<open>
  \<open>process_whitespace\<close> changes the tree in place and returns the box it was given: the
  result is that box after the loop.
\<close>

definition process_whitespace :: "box \<Rightarrow> box" where
  "process_whitespace box = fst (process_descendants False box)"

section \<open>InlineBlockNormalizer\<close>

lemma size_list_member: "c \<in> set cs \<Longrightarrow> size c < size_list size cs"
  by (induction cs) auto

lemma size_box_child: "c \<in> set (box_children b) \<Longrightarrow> size c < size b"
  by (cases b) (auto dest: size_list_member)

text \<open>
  \<open>wrap_lines\<close> is the loop of \<open>inline_in_block\<close> over the former children of the box,
  with the box (emptied before the loop) and the open line box as state, followed by
  the statements after the loop.
\<close>

fun wrap_lines :: "box \<Rightarrow> box \<Rightarrow> box list \<Rightarrow> box" where
  "wrap_lines box line_box [] =
     (if box_children line_box \<noteq> [] then
        (if box_children box \<noteq> [] then
           add_child box (add_child (AnonymousBlockBox (box_element box) []) line_box)
         else add_child box line_box)
      else box)"
| "wrap_lines box line_box (child_box # rest) =
     (if is_BlockLevelBox child_box then
        (if box_children line_box \<noteq> [] then
           wrap_lines
             (add_child
                (add_child box (add_child (AnonymousBlockBox (box_element box) []) line_box))
                child_box)
             (LineBox (box_element box) []) rest
         else wrap_lines (add_child box child_box) line_box rest)
      else if is_LineBox child_box then
        wrap_lines box (foldl add_child line_box (box_children child_box)) rest
      else wrap_lines box (add_child line_box child_box) rest)"

text \<open>
  \<open>inline_in_block\<close> changes the tree in place. The first component of the result is the
  box it was given, after the call; the second is the value the call returns, \<open>None\<close>
  for Python's \<open>None\<close> of the bare \<open>return\<close>. The recursive calls on the children drop
  the returned value and keep the effect.
\<close>

function inline_in_block :: "box \<Rightarrow> box \<times> box option" where
  "inline_in_block box =
     (let box1 = set_children box (map (\<lambda>child_box. fst (inline_in_block child_box))
                                       (box_children box))
      in if \<not> is_BlockContainerBox box1 then (box1, None)
         else (let box2 = wrap_lines (empty box1) (LineBox (box_element box1) [])
                            (box_children box1)
               in (box2, Some box2)))"
  by pat_completeness auto
termination
  by (relation "measure size") (auto dest: size_box_child)

declare inline_in_block.simps [simp del]

lemma inline_in_block_simps [simp]:
  "inline_in_block (TextBox e t) = (TextBox e t, None)"
  "inline_in_block (ImageMarkerBox e s) = (ImageMarkerBox e s, None)"
  "inline_in_block (InlineBox e cs) =
     (InlineBox e (map (\<lambda>child_box. fst (inline_in_block child_box)) cs), None)"
  "inline_in_block (LineBox e cs) =
     (LineBox e (map (\<lambda>child_box. fst (inline_in_block child_box)) cs), None)"
  "inline_in_block (InlineBlockBox e cs) =
     (let box2 = wrap_lines (InlineBlockBox e []) (LineBox e [])
                   (map (\<lambda>child_box. fst (inline_in_block child_box)) cs)
      in (box2, Some box2))"
  "inline_in_block (BlockBox e m cs) =
     (let box2 = wrap_lines (BlockBox e m []) (LineBox e [])
                   (map (\<lambda>child_box. fst (inline_in_block child_box)) cs)
      in (box2, Some box2))"
  "inline_in_block (AnonymousBlockBox e cs) =
     (let box2 = wrap_lines (AnonymousBlockBox e []) (LineBox e [])
                   (map (\<lambda>child_box. fst (inline_in_block child_box)) cs)
      in (box2, Some box2))"
  by (subst inline_in_block.simps, simp add: empty_def)+

section \<open>InlineBlockSplitter\<close>


text \<open>
  The cursor of the search: Python's \<open>(index, nested cursor)\<close>, with \<open>None\<close> for no cursor.
\<close>

datatype skip_stack = SkipStack nat "skip_stack option"

text \<open>
  Modelled from the spec: \<open>enumerate_skip\<close> of the module \<open>boxes\<close>, the children of a box
  from the index \<open>skip_num\<close> on, each with its index.
\<close>

definition enumerate_skip :: "box \<Rightarrow> nat \<Rightarrow> (nat \<times> box) list" where
  "enumerate_skip b skip_num =
     drop skip_num (zip [0..<length (box_children b)] (box_children b))"

lemma size_list_drop_le: "size_list f (drop k xs) \<le> size_list f xs"
  by (induction xs arbitrary: k) (auto simp: drop_Cons split: nat.splits intro: le_SucI trans_le_add2)

lemma size_list_children: "size_list size (box_children b) < Suc (size b)"
  by (cases b) auto

lemma map_snd_enumerate_skip: "map snd (enumerate_skip b k) = drop k (box_children b)"
  unfolding enumerate_skip_def by (simp add: drop_map[symmetric])

lemma enumerate_skip_size: "size_list (\<lambda>x. size (snd x)) (enumerate_skip b k) \<le> size b"
proof -
  have "size_list (\<lambda>x. size (snd x)) (enumerate_skip b k) = size_list size (map snd (enumerate_skip b k))"
    by (simp add: comp_def)
  also have "\<dots> \<le> size_list size (box_children b)"
    by (simp add: map_snd_enumerate_skip size_list_drop_le)
  also have "\<dots> \<le> size b" using size_list_children[of b] by simp
  finally show ?thesis .
qed

lemma enumerate_skip_size2:
  "2 * size_list (\<lambda>x. size (snd x)) (enumerate_skip b k) < Suc (2 * size b)"
  using enumerate_skip_size[of b k] by arith

text \<open>
  Python compares boxes by identity (\<open>new_child is not child\<close>). A function that may
  return its argument itself returns the box with a flag: \<open>True\<close> when the result is the
  very object it was given, \<open>False\<close> when it is a new box. \<open>box.copy()\<close> followed by
  \<open>empty()\<close> is \<open>empty box\<close>: a new box of the same variant, element and marker without
  children.

  \<open>inner_block_in_inline\<close> is \<open>_inner_block_in_inline\<close>; its first argument stands for
  \<open>block_in_inline\<close>, which it calls on the parent boxes that are not inline boxes and
  which is defined below by recursion through it. \<open>inner_loop\<close> is its \<open>for\<close> loop over
  \<open>enumerate_skip\<close>, with \<open>new_box\<close>, \<open>changed\<close> and \<open>resume_at\<close> as state; the result
  carries \<open>block_level_box\<close>, which is not \<open>None\<close> exactly when the loop ended by
  \<open>break\<close>.
\<close>

function inner_block_in_inline ::
    "(box \<Rightarrow> error + box \<times> bool) \<Rightarrow> box \<Rightarrow> skip_stack option
       \<Rightarrow> error + ((box \<times> bool) \<times> box option \<times> skip_stack option)"
  and inner_loop ::
    "(box \<Rightarrow> error + box \<times> bool) \<Rightarrow> (nat \<times> box) list \<Rightarrow> skip_stack option \<Rightarrow> box \<Rightarrow> bool
       \<Rightarrow> skip_stack option \<Rightarrow> error + (box \<times> bool \<times> box option \<times> skip_stack option)"
where
  "inner_block_in_inline f box stack =
     (let skip = (case stack of None \<Rightarrow> 0 | Some (SkipStack i s) \<Rightarrow> i);
          skip_stack = (case stack of None \<Rightarrow> None | Some (SkipStack i s) \<Rightarrow> s)
      in case inner_loop f (enumerate_skip box skip) skip_stack (empty box) False None of
           Inl err \<Rightarrow> Inl err
         | Inr (new_box, changed, block_level_box, resume_at) \<Rightarrow>
             (if block_level_box = None \<and> \<not> (changed \<or> skip \<noteq> 0)
              then Inr ((box, True), block_level_box, resume_at)
              else Inr ((new_box, False), block_level_box, resume_at)))"
| "inner_loop f [] skip_stack new_box changed resume_at =
     Inr (new_box, changed, None, resume_at)"
| "inner_loop f ((index, child) # rest) skip_stack new_box changed resume_at =
     (if is_BlockLevelBox child then
        Inr (new_box, changed, Some child, Some (SkipStack (index + 1) resume_at))
      else
        case (if is_InlineBox child then inner_block_in_inline f child skip_stack
              else if is_ParentBox child then
                (case f child of Inl err \<Rightarrow> Inl err
                 | Inr new_child \<Rightarrow> Inr (new_child, None, resume_at))
              else Inr ((child, True), None, resume_at)) of
          Inl err \<Rightarrow> Inl err
        | Inr ((new_child, same), block_level_box, resume_at') \<Rightarrow>
            (let changed' = (changed \<or> \<not> same);
                 new_box' = add_child new_box new_child
             in case block_level_box of
                  Some b \<Rightarrow> Inr (new_box', changed', Some b, Some (SkipStack index resume_at'))
                | None \<Rightarrow> inner_loop f rest skip_stack new_box' changed' resume_at'))"
  by pat_completeness auto
termination
  apply (relation "measure (\<lambda>x. case x of Inl (f, b, s) \<Rightarrow> 2 * size b + 2
            | Inr (f, items, r) \<Rightarrow> 2 * size_list (\<lambda>x. size (snd x)) items + 1)")
     apply simp
    apply (simp add: enumerate_skip_size2)
   apply simp
  apply simp
  done


fun subboxes :: "box \<Rightarrow> box set" where
  "subboxes (InlineBox e cs) = (\<Union>c \<in> set cs. insert c (subboxes c))"
| "subboxes (InlineBlockBox e cs) = (\<Union>c \<in> set cs. insert c (subboxes c))"
| "subboxes (BlockBox e m cs) = (\<Union>c \<in> set cs. insert c (subboxes c))"
| "subboxes (AnonymousBlockBox e cs) = (\<Union>c \<in> set cs. insert c (subboxes c))"
| "subboxes (LineBox e cs) = (\<Union>c \<in> set cs. insert c (subboxes c))"
| "subboxes b = {}"

lemma subboxes_children: "subboxes b = (\<Union>c \<in> set (box_children b). insert c (subboxes c))"
  by (cases b) simp_all

fun remaining :: "box list \<Rightarrow> skip_stack option \<Rightarrow> nat" where
  "remaining cs None = size_list size cs"
| "remaining cs (Some (SkipStack i st)) =
     (case drop i cs of
        [] \<Rightarrow> 0
      | c # rest \<Rightarrow>
          (if is_InlineBox c \<and> st \<noteq> None then remaining (box_children c) st
           else Suc (size c)) + size_list size rest)"

lemma remaining_le: "remaining cs st \<le> size_list size cs"
proof (induction cs st rule: remaining.induct)
  case (1 cs)
  show ?case by simp
next
  case (2 cs i st)
  show ?case
  proof (cases "drop i cs")
    case Nil
    then show ?thesis by simp
  next
    case (Cons c rest)
    have a: "size_list size (drop i cs) \<le> size_list size cs" by (rule size_list_drop_le)
    have "remaining (box_children c) st \<le> size c"
      if "is_InlineBox c" "st \<noteq> None"
      using 2[OF Cons] that size_list_children[of c] by simp
    then have "remaining cs (Some (SkipStack i st)) \<le> size_list size (drop i cs)"
      using Cons by auto
    with a show ?thesis by simp
  qed
qed

lemma enumerate_skip_Cons:
  assumes "enumerate_skip b j = (i, c) # rest"
  shows "i = j \<and> rest = enumerate_skip b (Suc j) \<and> drop j (box_children b) = c # drop (Suc j) (box_children b)"
proof -
  let ?cs = "box_children b"
  have j: "j < length ?cs"
    using assms unfolding enumerate_skip_def by (cases "j < length ?cs") auto
  have "enumerate_skip b j = (j, ?cs ! j) # enumerate_skip b (Suc j)"
    unfolding enumerate_skip_def using j
    by (simp add: Cons_nth_drop_Suc[symmetric])
  with assms have "i = j" "c = ?cs ! j" "rest = enumerate_skip b (Suc j)" by auto
  with j show ?thesis by (simp add: Cons_nth_drop_Suc)
qed



declare inner_block_in_inline.simps [simp del] inner_loop.simps(2) [simp del]

definition visit ::
    "(box \<Rightarrow> error + box \<times> bool) \<Rightarrow> box \<Rightarrow> skip_stack option \<Rightarrow> skip_stack option
       \<Rightarrow> error + ((box \<times> bool) \<times> box option \<times> skip_stack option)" where
  "visit f child skip_stack resume_at =
     (if is_InlineBox child then inner_block_in_inline f child skip_stack
      else if is_ParentBox child then
        (case f child of Inl err \<Rightarrow> Inl err
         | Inr new_child \<Rightarrow> Inr (new_child, None, resume_at))
      else Inr ((child, True), None, resume_at))"

lemma inner_loop_block:
  "is_BlockLevelBox child \<Longrightarrow>
   inner_loop f ((index, child) # rest) skip_stack new_box changed resume_at =
     Inr (new_box, changed, Some child, Some (SkipStack (index + 1) resume_at))"
  by (simp add: inner_loop.simps(2))

lemma inner_loop_visit:
  "\<not> is_BlockLevelBox child \<Longrightarrow>
   inner_loop f ((index, child) # rest) skip_stack new_box changed resume_at =
     (case visit f child skip_stack resume_at of
        Inl err \<Rightarrow> Inl err
      | Inr ((new_child, same), Some b, resume_at') \<Rightarrow>
          Inr (add_child new_box new_child, changed \<or> \<not> same, Some b,
               Some (SkipStack index resume_at'))
      | Inr ((new_child, same), None, resume_at') \<Rightarrow>
          inner_loop f rest skip_stack (add_child new_box new_child) (changed \<or> \<not> same)
            resume_at')"
  by (simp add: inner_loop.simps(2) visit_def Let_def split: sum.splits option.splits prod.splits)

lemma visit_found:
  "visit f child ss ra = Inr (x, Some b, ra') \<Longrightarrow>
     is_InlineBox child \<and> inner_block_in_inline f child ss = Inr (x, Some b, ra')"
  by (auto simp: visit_def split: if_splits sum.splits)

lemma inner_eq:
  "inner_block_in_inline f box stack = Inr (x, blk, r) \<Longrightarrow>
   \<exists>nb ch. inner_loop f (enumerate_skip box (case stack of None \<Rightarrow> 0 | Some (SkipStack i s) \<Rightarrow> i))
       (case stack of None \<Rightarrow> None | Some (SkipStack i s) \<Rightarrow> s) (empty box) False None
     = Inr (nb, ch, blk, r)"
  by (auto simp: inner_block_in_inline.simps Let_def split: sum.splits if_splits)

lemma remaining_drop_le:
  "remaining cs (Some (SkipStack k st)) \<le> size_list size (drop k cs)"
proof (cases "drop k cs")
  case Nil
  then show ?thesis by simp
next
  case (Cons c rest)
  have "remaining (box_children c) st \<le> size c"
    using remaining_le[of "box_children c" st] size_list_children[of c] by simp
  then show ?thesis using Cons by auto
qed

lemma remaining_start:
  "remaining cs (Some (SkipStack (case stack of None \<Rightarrow> 0 | Some (SkipStack i s) \<Rightarrow> i)
       (case stack of None \<Rightarrow> None | Some (SkipStack i s) \<Rightarrow> s))) = remaining cs stack"
proof (cases stack)
  case None
  then show ?thesis by (cases cs) simp_all
next
  case (Some a)
  then show ?thesis by (cases a) simp
qed

lemma search_progress:
  "inner_block_in_inline f box stack = Inr (x, Some blk, r) \<Longrightarrow>
     r \<noteq> None \<and> remaining (box_children box) r < remaining (box_children box) stack"
  "items = enumerate_skip b j \<Longrightarrow>
   inner_loop f items skip_stack new_box changed resume_at = Inr (nb, ch, Some blk, r) \<Longrightarrow>
     r \<noteq> None \<and> remaining (box_children b) r < remaining (box_children b) (Some (SkipStack j skip_stack))"
proof (induction f box stack and f items skip_stack new_box changed resume_at
    arbitrary: x blk r and b j nb ch blk r
    rule: inner_block_in_inline_inner_loop.induct)
  case (1 f box stack)
  from inner_eq[OF "1.prems"] obtain nb ch where
    "inner_loop f (enumerate_skip box (case stack of None \<Rightarrow> 0 | Some (SkipStack i s) \<Rightarrow> i))
       (case stack of None \<Rightarrow> None | Some (SkipStack i s) \<Rightarrow> s) (empty box) False None
     = Inr (nb, ch, Some blk, r)" by blast
  from "1.IH"[OF refl refl refl this]
  show ?case unfolding remaining_start .
next
  case (2 f skip_stack new_box changed resume_at)
  then show ?case by simp
next
  case (3 f index child rest skip_stack new_box changed resume_at)
  let ?cs = "box_children b"
  from enumerate_skip_Cons[OF "3.prems"(1)[symmetric]]
  have ij: "index = j" and rest: "rest = enumerate_skip b (Suc j)"
    and dr: "drop j ?cs = child # drop (Suc j) ?cs" by auto
  show ?case
  proof (cases "is_BlockLevelBox child")
    case True
    with "3.prems"(2) have r: "r = Some (SkipStack (Suc j) resume_at)"
      by (simp add: inner_loop_block ij)
    have "\<not> is_InlineBox child" using True by (cases child) auto
    then have "remaining ?cs (Some (SkipStack j skip_stack)) = Suc (size child) + size_list size (drop (Suc j) ?cs)"
      using dr by simp
    with remaining_drop_le[of ?cs "Suc j" resume_at] r show ?thesis by simp
  next
    case False
    note nb = False
    from "3.prems"(2) obtain new_child same bo ra' where
      v: "visit f child skip_stack resume_at = Inr ((new_child, same), bo, ra')"
      by (auto simp: inner_loop_visit[OF nb] split: sum.splits)
    show ?thesis
    proof (cases bo)
      case (Some b')
      from visit_found[OF v[unfolded Some]] have inl: "is_InlineBox child"
        and i: "inner_block_in_inline f child skip_stack = Inr ((new_child, same), Some b', ra')"
        by auto
      from "3.prems"(2) v Some have r: "r = Some (SkipStack j ra')"
        by (simp add: inner_loop_visit[OF nb] ij)
      from "3.IH"(1)[OF nb inl i] have ra: "ra' \<noteq> None"
        and lt: "remaining (box_children child) ra' < remaining (box_children child) skip_stack"
        by auto
      have lt2: "remaining (box_children child) ra' < Suc (size child)"
        using remaining_le[of "box_children child" ra'] size_list_children[of child] by simp
      show ?thesis using r ra lt lt2 dr inl by auto
    next
      case None
      from "3.prems"(2) v None have
        l: "inner_loop f rest skip_stack (add_child new_box new_child) (changed \<or> \<not> same) ra'
              = Inr (nb, ch, Some blk, r)"
        by (simp add: inner_loop_visit[OF nb])
      have "r \<noteq> None \<and> remaining ?cs r < remaining ?cs (Some (SkipStack (Suc j) skip_stack))"
        using "3.IH"(2)[OF nb v[unfolded visit_def] refl refl refl refl refl None rest l] .
      moreover have "remaining ?cs (Some (SkipStack (Suc j) skip_stack)) \<le> size_list size (drop (Suc j) ?cs)"
        by (rule remaining_drop_le)
      moreover have "size_list size (drop (Suc j) ?cs) \<le> remaining ?cs (Some (SkipStack j skip_stack))"
        using dr by simp
      ultimately show ?thesis by simp
    qed
  qed
qed

lemma enumerate_skip_set: "(i, c) \<in> set (enumerate_skip b k) \<Longrightarrow> c \<in> set (box_children b)"
  unfolding enumerate_skip_def by (auto dest!: in_set_dropD dest: set_zip_rightD)

lemma subboxes_item:
  "(i, c) \<in> set (enumerate_skip b k) \<Longrightarrow> c' = c \<or> c' \<in> subboxes c \<Longrightarrow> c' \<in> subboxes b"
  using enumerate_skip_set[of i c b k] by (subst subboxes_children) auto

lemma search_found:
  "inner_block_in_inline f box stack = Inr (x, Some blk, r) \<Longrightarrow>
     blk \<in> subboxes box \<and> is_BlockLevelBox blk"
  "inner_loop f items skip_stack new_box changed resume_at = Inr (nb, ch, Some blk, r) \<Longrightarrow>
     (\<exists>c \<in> snd ` set items. blk = c \<or> blk \<in> subboxes c) \<and> is_BlockLevelBox blk"
proof (induction f box stack and f items skip_stack new_box changed resume_at
    arbitrary: x blk r and nb ch blk r
    rule: inner_block_in_inline_inner_loop.induct)
  case (1 f box stack)
  from inner_eq[OF "1.prems"] obtain nb ch where
    "inner_loop f (enumerate_skip box (case stack of None \<Rightarrow> 0 | Some (SkipStack i s) \<Rightarrow> i))
       (case stack of None \<Rightarrow> None | Some (SkipStack i s) \<Rightarrow> s) (empty box) False None
     = Inr (nb, ch, Some blk, r)" by blast
  from "1.IH"[OF refl refl this]
  show ?case by (auto intro: subboxes_item)
next
  case (2 f skip_stack new_box changed resume_at)
  then show ?case by simp
next
  case (3 f index child rest skip_stack new_box changed resume_at)
  show ?case
  proof (cases "is_BlockLevelBox child")
    case True
    with "3.prems" show ?thesis by (simp add: inner_loop_block)
  next
    case False
    note nb = False
    from "3.prems" obtain new_child same bo ra' where
      v: "visit f child skip_stack resume_at = Inr ((new_child, same), bo, ra')"
      by (auto simp: inner_loop_visit[OF nb] split: sum.splits)
    show ?thesis
    proof (cases bo)
      case (Some b')
      from visit_found[OF v[unfolded Some]] have inl: "is_InlineBox child"
        and i: "inner_block_in_inline f child skip_stack = Inr ((new_child, same), Some b', ra')"
        by auto
      from "3.prems" v Some have "blk = b'"
        by (simp add: inner_loop_visit[OF nb])
      with "3.IH"(1)[OF nb inl i] show ?thesis by simp
    next
      case None
      from "3.prems" v None have
        l: "inner_loop f rest skip_stack (add_child new_box new_child) (changed \<or> \<not> same) ra'
              = Inr (nb, ch, Some blk, r)"
        by (simp add: inner_loop_visit[OF nb])
      from "3.IH"(2)[OF nb v[unfolded visit_def] refl refl refl refl refl None l]
      show ?thesis by auto
    qed
  qed
qed

lemma search_cong_aux:
  "(\<And>c. c \<in> subboxes box \<Longrightarrow> f c = g c) \<Longrightarrow>
     inner_block_in_inline f box stack = inner_block_in_inline g box stack"
  "(\<And>c c'. c \<in> snd ` set items \<Longrightarrow> c' = c \<or> c' \<in> subboxes c \<Longrightarrow> f c' = g c') \<Longrightarrow>
     inner_loop f items skip_stack new_box changed resume_at =
     inner_loop g items skip_stack new_box changed resume_at"
proof (induction f box stack and f items skip_stack new_box changed resume_at
    rule: inner_block_in_inline_inner_loop.induct)
  case (1 f box stack)
  have "inner_loop f (enumerate_skip box (case stack of None \<Rightarrow> 0 | Some (SkipStack i s) \<Rightarrow> i))
       (case stack of None \<Rightarrow> None | Some (SkipStack i s) \<Rightarrow> s) (empty box) False None
     = inner_loop g (enumerate_skip box (case stack of None \<Rightarrow> 0 | Some (SkipStack i s) \<Rightarrow> i))
       (case stack of None \<Rightarrow> None | Some (SkipStack i s) \<Rightarrow> s) (empty box) False None"
  proof (rule "1.IH"[OF refl refl])
    fix c c' assume "c \<in> snd ` set (enumerate_skip box (case stack of None \<Rightarrow> 0 | Some (SkipStack i s) \<Rightarrow> i))"
      and "c' = c \<or> c' \<in> subboxes c"
    then have "c' \<in> subboxes box"
      by (auto intro: subboxes_item)
    then show "f c' = g c'" by (rule "1.prems")
  qed
  then show ?case by (simp add: inner_block_in_inline.simps Let_def)
next
  case (2 f skip_stack new_box changed resume_at)
  show ?case by simp
next
  case (3 f index child rest skip_stack new_box changed resume_at)
  show ?case
  proof (cases "is_BlockLevelBox child")
    case True
    then show ?thesis by (simp add: inner_loop_block)
  next
    case False
    note nb = False
    have fc: "f child = g child" using "3.prems"[of child child] by simp
    have v: "visit f child skip_stack resume_at = visit g child skip_stack resume_at"
    proof (cases "is_InlineBox child")
      case True
      have "inner_block_in_inline f child skip_stack = inner_block_in_inline g child skip_stack"
        by (rule "3.IH"(1)[OF nb True]) (use "3.prems"[of child] in simp)
      with True show ?thesis by (simp add: visit_def)
    next
      case False
      then show ?thesis by (simp add: visit_def fc)
    qed
    show ?thesis
    proof (cases "visit f child skip_stack resume_at")
      case (Inl a)
      then show ?thesis using v by (simp add: inner_loop_visit[OF nb])
    next
      case (Inr res)
      obtain new_child same bo ra' where res: "res = ((new_child, same), bo, ra')"
        by (metis prod.exhaust)
      have vf: "visit f child skip_stack resume_at = Inr ((new_child, same), bo, ra')"
        using Inr res by simp
      have vg: "visit g child skip_stack resume_at = Inr ((new_child, same), bo, ra')"
        using vf v by simp
      show ?thesis
      proof (cases bo)
        case (Some b')
        then show ?thesis by (simp add: inner_loop_visit[OF nb] vf vg)
      next
        case None
        have "inner_loop f rest skip_stack (add_child new_box new_child) (changed \<or> \<not> same) ra'
            = inner_loop g rest skip_stack (add_child new_box new_child) (changed \<or> \<not> same) ra'"
          by (rule "3.IH"(2)[OF nb Inr[unfolded visit_def res] refl refl refl refl refl None])
             (use "3.prems" in auto)
        then show ?thesis using None by (simp add: inner_loop_visit[OF nb] vf vg)
      qed
    qed
  qed
qed

lemma inner_block_in_inline_cong [fundef_cong]:
  "box = box' \<Longrightarrow> stack = stack' \<Longrightarrow> (\<And>c. c \<in> subboxes box' \<Longrightarrow> f c = g c) \<Longrightarrow>
     inner_block_in_inline f box stack = inner_block_in_inline g box' stack'"
  using search_cong_aux(1)[of box' f g stack'] by simp

text \<open>
  \<open>split_loop\<close> is the \<open>while 1\<close> loop of \<open>block_in_inline\<close> on a line box \<open>child\<close> of
  \<open>box\<close>: the state is the cursor \<open>stack\<close> and the list \<open>new_children\<close>; the result is
  the last \<open>new_line\<close> and \<open>new_children\<close>. Every search that finds a block moves the
  cursor forward, which is why the loop ends.
\<close>

function split_loop ::
    "(box \<Rightarrow> error + box \<times> bool) \<Rightarrow> box \<Rightarrow> box \<Rightarrow> skip_stack option \<Rightarrow> box list
       \<Rightarrow> error + ((box \<times> bool) \<times> box list)" where
  "split_loop f box child stack new_children =
     (case inner_block_in_inline f child stack of
        Inl err \<Rightarrow> Inl err
      | Inr (new_line, None, stack') \<Rightarrow> Inr (new_line, new_children)
      | Inr (new_line, Some block, stack') \<Rightarrow>
          (case f block of
             Inl err \<Rightarrow> Inl err
           | Inr (new_block, same) \<Rightarrow>
               split_loop f box child stack'
                 (new_children @ [AnonymousBlockBox (box_element box) [fst new_line], new_block])))"
  by pat_completeness auto
termination
  apply (relation "measure (\<lambda>(f, box, child, stack, new_children). remaining (box_children child) stack)")
   apply simp
  apply (auto dest: search_progress(1))
  done

declare split_loop.simps [simp del]

lemma split_loop_cong_aux:
  "(\<And>c. c \<in> subboxes child \<Longrightarrow> f c = g c) \<Longrightarrow>
     split_loop f box child stack new_children = split_loop g box child stack new_children"
proof (induction f box child stack new_children rule: split_loop.induct)
  case (1 f box child stack new_children)
  have i: "inner_block_in_inline g child stack = inner_block_in_inline f child stack"
    using search_cong_aux(1)[of child f g stack] "1.prems" by simp
  show ?case
  proof (cases "inner_block_in_inline f child stack")
    case (Inl a)
    then show ?thesis using i by (simp add: split_loop.simps[of _ box child stack])
  next
    case (Inr res)
    note fres = Inr
    obtain new_line bo stack' where res: "res = (new_line, bo, stack')"
      by (metis prod.exhaust)
    show ?thesis
    proof (cases bo)
      case None
      then show ?thesis using i Inr res by (simp add: split_loop.simps[of _ box child stack])
    next
      case (Some block)
      have "block \<in> subboxes child"
        using search_found(1)[of f child stack new_line block stack'] Inr res Some by simp
      then have fg: "g block = f block" using "1.prems" by simp
      show ?thesis
      proof (cases "f block")
        case (Inl a)
        then show ?thesis using i Inr res Some fg
          by (simp add: split_loop.simps[of _ box child stack])
      next
        case (Inr nb)
        obtain new_block same where nb: "nb = (new_block, same)" by (metis prod.exhaust)
        have "split_loop f box child stack'
                (new_children @ [AnonymousBlockBox (box_element box) [fst new_line], new_block])
            = split_loop g box child stack'
                (new_children @ [AnonymousBlockBox (box_element box) [fst new_line], new_block])"
          by (rule "1.IH"[OF fres res[symmetric] refl Some Inr nb[symmetric] "1.prems"])
        then show ?thesis using i fres res Some fg Inr nb
          by (simp add: split_loop.simps[of _ box child stack])
      qed
    qed
  qed
qed

lemma split_loop_cong [fundef_cong]:
  "box = box' \<Longrightarrow> child = child' \<Longrightarrow> stack = stack' \<Longrightarrow> new_children = new_children' \<Longrightarrow>
   (\<And>c. c \<in> subboxes child' \<Longrightarrow> f c = g c) \<Longrightarrow>
     split_loop f box child stack new_children = split_loop g box' child' stack' new_children'"
  using split_loop_cong_aux[of child' f g box' stack' new_children'] by simp

lemma subboxes_size: "c \<in> subboxes b \<Longrightarrow> size c < size b"
proof (induction b arbitrary: c rule: subboxes.induct)
  case (1 e cs)
  then show ?case by (fastforce dest: size_list_member)
next
  case (2 e cs)
  then show ?case by (fastforce dest: size_list_member)
next
  case (3 e m cs)
  then show ?case by (fastforce dest: size_list_member)
next
  case (4 e cs)
  then show ?case by (fastforce dest: size_list_member)
next
  case (5 e cs)
  then show ?case by (fastforce dest: size_list_member)
qed simp_all

lemma size_list_children2: "2 * size_list size (box_children b) < Suc (2 * size b)"
  using size_list_children[of b] by arith

text \<open>
  \<open>block_in_inline_children\<close> is the loop over \<open>box.children\<close>, with \<open>new_children\<close> and
  \<open>changed\<close> as state.
\<close>

function block_in_inline :: "box \<Rightarrow> error + box \<times> bool"
  and block_in_inline_children ::
    "box \<Rightarrow> box list \<Rightarrow> box list \<Rightarrow> bool \<Rightarrow> error + (box list \<times> bool)"
where
  "block_in_inline box =
     (if \<not> is_ParentBox box then Inr (box, True)
      else case block_in_inline_children box (box_children box) [] False of
             Inl err \<Rightarrow> Inl err
           | Inr (new_children, changed) \<Rightarrow>
               if changed then Inr (set_children box new_children, False)
               else Inr (box, True))"
| "block_in_inline_children box [] new_children changed = Inr (new_children, changed)"
| "block_in_inline_children box (child # rest) new_children changed =
     (case (if is_LineBox child then
              (if length (box_children box) \<noteq> 1 then Inl AssertionError
               else case split_loop block_in_inline box child None new_children of
                      Inl err \<Rightarrow> Inl err
                    | Inr (new_line, new_children') \<Rightarrow>
                        if new_children' \<noteq> [] then
                          Inr ((AnonymousBlockBox (box_element box) [fst new_line], False),
                               new_children')
                        else Inr (new_line, new_children'))
            else case block_in_inline child of
                   Inl err \<Rightarrow> Inl err
                 | Inr new_child \<Rightarrow> Inr (new_child, new_children)) of
        Inl err \<Rightarrow> Inl err
      | Inr ((new_child, same), new_children') \<Rightarrow>
          block_in_inline_children box rest (new_children' @ [new_child])
            (changed \<or> \<not> same))"
  by pat_completeness auto
termination
  apply (relation "measure (\<lambda>x. case x of Inl box \<Rightarrow> 2 * size box + 2
            | Inr (box, cs, r) \<Rightarrow> 2 * size_list size cs + 1)")
  apply (auto dest: subboxes_size simp: size_list_children2)
  done

section \<open>The pipeline\<close>

text \<open>
  \<open>build_formatting_structure\<close>, with the root \<open>document.dom\<close> of the document's tree. When \<open>inline_in_block\<close>
  returns \<open>None\<close>, \<open>block_in_inline\<close> passes it on and \<open>process_whitespace\<close> fails on
  \<open>None.descendants\<close>.
\<close>

definition build_formatting_structure ::
    "(element \<Rightarrow> box option) \<Rightarrow> (string \<Rightarrow> surface option) \<Rightarrow> element \<Rightarrow> error + box" where
  "build_formatting_structure handle_element resolve root =
     (case dom_to_box handle_element resolve root of
        Inl err \<Rightarrow> Inl err
      | Inr None \<Rightarrow> Inl AssertionError
      | Inr (Some box) \<Rightarrow>
          (case snd (inline_in_block box) of
             None \<Rightarrow> Inl AttributeError
           | Some box' \<Rightarrow>
               (case block_in_inline box' of
                  Inl err \<Rightarrow> Inl err
                | Inr (box'', same) \<Rightarrow> Inr (process_whitespace box''))))"

section \<open>Example inputs\<close>

definition example_style :: "string \<Rightarrow> string \<Rightarrow> style" where
  "example_style d ws =
     \<lparr>display = d, white_space = ws, list_style_image = ImageNone,
      list_style_type = ''disc'', list_style_position = ''inside''\<rparr>"

definition example_elem :: "nat \<Rightarrow> string \<Rightarrow> string \<Rightarrow> elem" where
  "example_elem n d ws = \<lparr>element_id = n, style = example_style d ws\<rparr>"

lemma example_elem_simps [simp]:
  "element_id (example_elem n d ws) = n"
  "display (style (example_elem n d ws)) = d"
  "white_space (style (example_elem n d ws)) = ws"
  "list_style_image (style (example_elem n d ws)) = ImageNone"
  "list_style_type (style (example_elem n d ws)) = ''disc''"
  "list_style_position (style (example_elem n d ws)) = ''inside''"
  by (simp_all add: example_elem_def example_style_def)

section \<open>Notions used in the properties\<close>

text \<open>
  The wording of the specification for \<open>pre-wrap\<close>: a zero-width break opportunity after
  every no-break space that is not followed by another no-break space.
\<close>

definition mark_breaks :: "unicode \<Rightarrow> unicode" where
  "mark_breaks t =
     concat (map (\<lambda>i. if t ! i = NBSP \<and> (if Suc i < length t then t ! Suc i \<noteq> NBSP else True)
                        then [NBSP, ZWSP] else [t ! i])
                 [0..<length t])"

text \<open>All text boxes of a tree in document order, each with its element and text.\<close>

fun all_texts :: "box \<Rightarrow> (elem \<times> unicode) list"
  and all_texts_list :: "box list \<Rightarrow> (elem \<times> unicode) list"
where
  "all_texts (TextBox e t) = [(e, t)]"
| "all_texts (ImageMarkerBox e s) = []"
| "all_texts (InlineBox e cs) = all_texts_list cs"
| "all_texts (InlineBlockBox e cs) = all_texts_list cs"
| "all_texts (BlockBox e m cs) = all_texts_list cs"
| "all_texts (AnonymousBlockBox e cs) = all_texts_list cs"
| "all_texts (LineBox e cs) = all_texts_list cs"
| "all_texts_list [] = []"
| "all_texts_list (c # cs) = all_texts c @ all_texts_list cs"

text \<open>
  The wording of the specification for the flag: one boolean is carried from each
  visited text leaf (a text box with a text that is not empty) to the next one in
  document order.
\<close>

fun thread :: "bool \<Rightarrow> (elem \<times> unicode) list \<Rightarrow> (elem \<times> unicode) list \<times> bool" where
  "thread fl [] = ([], fl)"
| "thread fl ((e, t) # xs) =
     (if t = [] then (case thread fl xs of (ys, fl') \<Rightarrow> ((e, t) # ys, fl'))
      else (case process_text (white_space (style e)) fl t of
              (t', fl') \<Rightarrow> (case thread fl' xs of (ys, fl'') \<Rightarrow> ((e, t') # ys, fl''))))"

definition collapsing :: "string \<Rightarrow> bool" where
  "collapsing handling =
     (handling = ''normal'' \<or> handling = ''nowrap'' \<or> handling = ''pre-line'')"

text \<open>
  Two trees with the same boxes, variants, elements, markers and order, where the
  second may differ from the first in the texts of the text boxes whose text in the
  first is not empty.
\<close>

fun same_structure :: "box \<Rightarrow> box \<Rightarrow> bool"
  and same_structure_list :: "box list \<Rightarrow> box list \<Rightarrow> bool"
where
  "same_structure (TextBox e t) b =
     (case b of TextBox e' t' \<Rightarrow> e' = e \<and> (if t = [] then t' = [] else True) | _ \<Rightarrow> False)"
| "same_structure (ImageMarkerBox e s) b = (b = ImageMarkerBox e s)"
| "same_structure (InlineBox e cs) b =
     (case b of InlineBox e' cs' \<Rightarrow> e' = e \<and> same_structure_list cs cs' | _ \<Rightarrow> False)"
| "same_structure (InlineBlockBox e cs) b =
     (case b of InlineBlockBox e' cs' \<Rightarrow> e' = e \<and> same_structure_list cs cs' | _ \<Rightarrow> False)"
| "same_structure (BlockBox e m cs) b =
     (case b of BlockBox e' m' cs' \<Rightarrow> e' = e \<and> m' = m \<and> same_structure_list cs cs'
      | _ \<Rightarrow> False)"
| "same_structure (AnonymousBlockBox e cs) b =
     (case b of AnonymousBlockBox e' cs' \<Rightarrow> e' = e \<and> same_structure_list cs cs'
      | _ \<Rightarrow> False)"
| "same_structure (LineBox e cs) b =
     (case b of LineBox e' cs' \<Rightarrow> e' = e \<and> same_structure_list cs cs' | _ \<Rightarrow> False)"
| "same_structure_list [] bs = (bs = [])"
| "same_structure_list (c # cs) bs =
     (case bs of [] \<Rightarrow> False | c' # cs' \<Rightarrow> same_structure c c' \<and> same_structure_list cs cs')"

text \<open>
  The boxes one child node contributes to its parent's box, in the wording of the
  specification: only an element child contributes, the box built for it when it is not
  pruned and then a text box for its tail when that is not empty; a comment or a
  processing instruction contributes nothing.
\<close>

definition element_child_boxes ::
    "(element \<Rightarrow> box option) \<Rightarrow> (string \<Rightarrow> surface option) \<Rightarrow> elem \<Rightarrow> element \<Rightarrow> box list" where
  "element_child_boxes handle_element resolve e c =
     (if tag c \<noteq> None then
        (case dom_to_box handle_element resolve c of Inr (Some child_box) \<Rightarrow> [child_box] | _ \<Rightarrow> [])
        @ (if etail c \<noteq> [] then [TextBox e (etail c)] else [])
      else [])"

text \<open>
  The same as the source has it: a node that is not an element builds no box of its own,
  and the text after it, its tail, is appended like the tail of an element.
\<close>

definition child_boxes ::
    "(element \<Rightarrow> box option) \<Rightarrow> (string \<Rightarrow> surface option) \<Rightarrow> elem \<Rightarrow> element \<Rightarrow> box list" where
  "child_boxes handle_element resolve e c =
     (if tag c \<noteq> None then
        (case dom_to_box handle_element resolve c of Inr (Some child_box) \<Rightarrow> [child_box] | _ \<Rightarrow> [])
      else [])
     @ (if etail c \<noteq> [] then [TextBox e (etail c)] else [])"

text \<open>
  The elements the boxes of a tree originate from, by identity; the outside marker of a
  block box counts.
\<close>

fun box_origins :: "box \<Rightarrow> nat set" where
  "box_origins (TextBox e t) = {element_id e}"
| "box_origins (ImageMarkerBox e s) = {element_id e}"
| "box_origins (InlineBox e cs) = insert (element_id e) (\<Union>c \<in> set cs. box_origins c)"
| "box_origins (InlineBlockBox e cs) = insert (element_id e) (\<Union>c \<in> set cs. box_origins c)"
| "box_origins (BlockBox e m cs) =
     insert (element_id e)
       ((\<Union>c \<in> set_option m. box_origins c) \<union> (\<Union>c \<in> set cs. box_origins c))"
| "box_origins (AnonymousBlockBox e cs) = insert (element_id e) (\<Union>c \<in> set cs. box_origins c)"
| "box_origins (LineBox e cs) = insert (element_id e) (\<Union>c \<in> set cs. box_origins c)"

text \<open>The identities of the nodes of a document tree, in document order.\<close>

fun id_list :: "element \<Rightarrow> nat list" where
  "id_list (Element tg e txt ta cs) = element_id e # concat (map id_list cs)"

text \<open>
  The nodes of a tree that are pruned: the elements whose display is \<open>none\<close>, with all
  their descendants.
\<close>

fun pruned_ids :: "element \<Rightarrow> nat set" where
  "pruned_ids (Element tg e txt ta cs) =
     (if display (style e) = ''none'' then set (id_list (Element tg e txt ta cs))
      else (\<Union>c \<in> set cs. pruned_ids c))"

text \<open>
  A hook that builds, for an element it handles, boxes that originate from that element
  only.
\<close>

definition hook_keeps_origin :: "(element \<Rightarrow> box option) \<Rightarrow> bool" where
  "hook_keeps_origin handle_element =
     (\<forall>x b. handle_element x = Some b \<longrightarrow> box_origins b \<subseteq> {element_id (ref x)})"

text \<open>The nodes of a tree that are not pruned.\<close>

fun unpruned_ids :: "element \<Rightarrow> nat set" where
  "unpruned_ids (Element tg e txt ta cs) =
     (if display (style e) = ''none'' then {}
      else insert (element_id e) (\<Union>c \<in> set cs. unpruned_ids c))"

text \<open>
  The wording of the specification for the children of a block container, each
  normalized already. A child that is a line box is not nested: its children take its
  place in the run (\<open>merge_lines\<close>). Every maximal run of consecutive children that are not
  block-level is wrapped in a line box in an anonymous block box (\<open>wrap_line\<close>; a run with
  nothing in it leaves nothing), and every block-level child stays where it is. When no
  child is block-level, the content becomes one line box without the anonymous block box.
\<close>

definition merge_lines :: "box list \<Rightarrow> box list" where
  "merge_lines cs = concat (map (\<lambda>c. if is_LineBox c then box_children c else [c]) cs)"

definition wrap_line :: "elem \<Rightarrow> box list \<Rightarrow> box list" where
  "wrap_line e run = (if run = [] then [] else [AnonymousBlockBox e [LineBox e run]])"

function wrap_runs :: "elem \<Rightarrow> box list \<Rightarrow> box list" where
  "wrap_runs e [] = []"
| "wrap_runs e (c # cs) =
     (if is_BlockLevelBox c then c # wrap_runs e cs
      else wrap_line e (merge_lines (c # takeWhile (\<lambda>x. \<not> is_BlockLevelBox x) cs))
           @ wrap_runs e (dropWhile (\<lambda>x. \<not> is_BlockLevelBox x) cs))"
  by pat_completeness auto
termination
proof (relation "measure (\<lambda>(e, cs). length cs)", goal_cases)
  case 1
  show ?case by simp
next
  case (2 e c cs)
  show ?case by simp
next
  case (3 e c cs)
  have "length (dropWhile (\<lambda>x. \<not> is_BlockLevelBox x) cs) \<le> length cs"
    by (rule length_dropWhile_le)
  then show ?case by simp
qed

definition group_inline_runs :: "elem \<Rightarrow> box list \<Rightarrow> box list" where
  "group_inline_runs e cs =
     (if list_all (\<lambda>c. \<not> is_BlockLevelBox c) cs then
        (if merge_lines cs = [] then [] else [LineBox e (merge_lines cs)])
      else wrap_runs e cs)"

text \<open>
  The contract \<open>normalize\<close> of the specification: the children are normalized first; a
  block container then has its children regrouped, and every other box keeps them in
  place.
\<close>

fun normalize_box :: "box \<Rightarrow> box" where
  "normalize_box (TextBox e t) = TextBox e t"
| "normalize_box (ImageMarkerBox e s) = ImageMarkerBox e s"
| "normalize_box (InlineBox e cs) = InlineBox e (map normalize_box cs)"
| "normalize_box (LineBox e cs) = LineBox e (map normalize_box cs)"
| "normalize_box (InlineBlockBox e cs) =
     InlineBlockBox e (group_inline_runs e (map normalize_box cs))"
| "normalize_box (BlockBox e m cs) = BlockBox e m (group_inline_runs e (map normalize_box cs))"
| "normalize_box (AnonymousBlockBox e cs) =
     AnonymousBlockBox e (group_inline_runs e (map normalize_box cs))"

text \<open>
  The groups that follow an open line box with the content \<open>pending\<close>: the run it
  belongs to ends at the first block-level child.
\<close>

definition run_then :: "elem \<Rightarrow> box list \<Rightarrow> box list \<Rightarrow> box list" where
  "run_then e pending cs =
     wrap_line e (pending @ merge_lines (takeWhile (\<lambda>x. \<not> is_BlockLevelBox x) cs))
     @ wrap_runs e (dropWhile (\<lambda>x. \<not> is_BlockLevelBox x) cs)"

text \<open>
  A box in an inline formatting context from which the search of the splitter finds no
  block-level box: the box is not block-level, and when it is an inline box its children
  are such boxes. The search does not enter inline-block boxes.
\<close>

fun inline_clean :: "box \<Rightarrow> bool" where
  "inline_clean (InlineBox e cs) = list_all inline_clean cs"
| "inline_clean (BlockBox e m cs) = False"
| "inline_clean (AnonymousBlockBox e cs) = False"
| "inline_clean b = True"

text \<open>Every line box of the tree holds only such boxes.\<close>

fun lines_split :: "box \<Rightarrow> bool" where
  "lines_split (LineBox e cs) = (list_all inline_clean cs \<and> list_all lines_split cs)"
| "lines_split (InlineBox e cs) = list_all lines_split cs"
| "lines_split (InlineBlockBox e cs) = list_all lines_split cs"
| "lines_split (BlockBox e m cs) = list_all lines_split cs"
| "lines_split (AnonymousBlockBox e cs) = list_all lines_split cs"
| "lines_split b = True"

text \<open>
  The structural precondition of the splitter (section 3 of the specification): a line
  box is the only child of a block container, wherever it stands.
\<close>

fun lines_ok :: "box \<Rightarrow> bool" where
  "lines_ok (LineBox e cs) = list_all (\<lambda>c. \<not> is_LineBox c \<and> lines_ok c) cs"
| "lines_ok (InlineBox e cs) = list_all (\<lambda>c. \<not> is_LineBox c \<and> lines_ok c) cs"
| "lines_ok (InlineBlockBox e cs) =
     ((if list_ex is_LineBox cs then length cs = 1 else True) \<and> list_all lines_ok cs)"
| "lines_ok (BlockBox e m cs) =
     ((if list_ex is_LineBox cs then length cs = 1 else True) \<and> list_all lines_ok cs)"
| "lines_ok (AnonymousBlockBox e cs) =
     ((if list_ex is_LineBox cs then length cs = 1 else True) \<and> list_all lines_ok cs)"
| "lines_ok b = True"

text \<open>
  The literal reading of "a line box contains a block-level descendant": some box below
  it, at any depth and through any box, is block-level.
\<close>

fun contains_block :: "box \<Rightarrow> bool" where
  "contains_block (InlineBox e cs) = list_ex (\<lambda>c. is_BlockLevelBox c \<or> contains_block c) cs"
| "contains_block (InlineBlockBox e cs) = list_ex (\<lambda>c. is_BlockLevelBox c \<or> contains_block c) cs"
| "contains_block (BlockBox e m cs) = list_ex (\<lambda>c. is_BlockLevelBox c \<or> contains_block c) cs"
| "contains_block (AnonymousBlockBox e cs) =
     list_ex (\<lambda>c. is_BlockLevelBox c \<or> contains_block c) cs"
| "contains_block (LineBox e cs) = list_ex (\<lambda>c. is_BlockLevelBox c \<or> contains_block c) cs"
| "contains_block b = False"

fun line_with_block :: "box \<Rightarrow> bool" where
  "line_with_block (LineBox e cs) =
     (contains_block (LineBox e cs) \<or> list_ex line_with_block cs)"
| "line_with_block (InlineBox e cs) = list_ex line_with_block cs"
| "line_with_block (InlineBlockBox e cs) = list_ex line_with_block cs"
| "line_with_block (BlockBox e m cs) = list_ex line_with_block cs"
| "line_with_block (AnonymousBlockBox e cs) = list_ex line_with_block cs"
| "line_with_block b = False"

text \<open>The requirement on the children of a new line box or inline box.\<close>

definition okc :: "box \<Rightarrow> bool" where
  "okc c = (inline_clean c \<and> lines_split c \<and> lines_ok c \<and> \<not> is_LineBox c)"

text \<open>The requirement on the children of a rebuilt box that is not a line box.\<close>

definition okb :: "box \<Rightarrow> bool" where
  "okb c = (lines_ok c \<and> lines_split c \<and> \<not> is_LineBox c)"

text \<open>What a result of the splitter for the box \<open>c\<close> has to satisfy.\<close>

definition good :: "box \<Rightarrow> box \<times> bool \<Rightarrow> bool" where
  "good c r = ((\<exists>ds. fst r = set_children c ds) \<and> lines_ok (fst r) \<and> lines_split (fst r)
               \<and> (if snd r then fst r = c else True))"

text \<open>
  A function that answers a box with a box of the same variant, element and marker that
  satisfies the precondition again and is split, and that says truly when it returns
  the box it was given.
\<close>

definition splits_well :: "(box \<Rightarrow> error + box \<times> bool) \<Rightarrow> box \<Rightarrow> bool" where
  "splits_well f c = (\<exists>r. f c = Inr r \<and> good c r)"

section \<open>Replacing and adding children\<close>

lemma set_children_parent [simp]:
  "is_ParentBox b \<Longrightarrow> box_children (set_children b ds) = ds"
  "set_children (set_children b ds) ds' = set_children b ds'"
  "is_ParentBox (set_children b ds) = is_ParentBox b"
  "set_children b (box_children b) = b"
  by (cases b; simp)+

lemma add_child_parent:
  "is_ParentBox b \<Longrightarrow> add_child b c = set_children b (box_children b @ [c])"
  "is_ParentBox (add_child b c) = is_ParentBox b"
  by (simp_all add: add_child_def)

section \<open>Properties of TreeBuilder\<close>

lemma make_box_parent: "make_box resolve e = Inr b \<Longrightarrow> is_ParentBox b"
  by (auto simp: make_box_def Let_def add_child_def split: if_splits sum.splits option.splits)

lemma dom_to_box_children_spec:
  "is_ParentBox box \<Longrightarrow> dom_to_box_children h r e cs box = Inr (Some box') \<Longrightarrow>
     box' = set_children box (box_children box @ concat (map (child_boxes h r e) cs))"
proof (induction cs arbitrary: box)
  case Nil
  then show ?case by simp
next
  case (Cons c cs)
  let ?b1 = "set_children box (box_children box @ child_boxes h r e c)"
  have p1: "is_ParentBox ?b1" using Cons.prems(1) by simp
  have "dom_to_box_children h r e cs ?b1 = Inr (Some box')"
    using Cons.prems
    by (auto simp: child_boxes_def add_child_parent split: if_splits sum.splits option.splits)
  from Cons.IH[OF p1 this] show ?case using Cons.prems(1) by simp
qed

text \<open>
  A comment between two texts: \<open><p>a<!-- x -->b</p>\<close>. The comment builds no box, and
  the text after it, which is its tail, becomes a text box of the paragraph; by the
  wording of the specification the comment would contribute nothing and the text
  \<open>b\<close> would be lost.
\<close>

theorem comment_tail_is_kept:
  "dom_to_box (\<lambda>x. None) (\<lambda>uri. None)
     (Element (Some ''p'') (example_elem 0 ''block'' ''normal'') [97] []
        [Element None (example_elem 1 ''inline'' ''normal'') [120] [98] []]) =
   Inr (Some (BlockBox (example_elem 0 ''block'' ''normal'') None
     [TextBox (example_elem 0 ''block'' ''normal'') [97],
      TextBox (example_elem 0 ''block'' ''normal'') [98]]))
   \<and> [TextBox (example_elem 0 ''block'' ''normal'') [97]]
       @ concat (map (element_child_boxes (\<lambda>x. None) (\<lambda>uri. None)
                  (example_elem 0 ''block'' ''normal''))
           [Element None (example_elem 1 ''inline'' ''normal'') [120] [98] []]) =
     [TextBox (example_elem 0 ''block'' ''normal'') [97]]"
  by (simp add: make_box_def add_child_def element_child_boxes_def)

text \<open>
  C4. An element built by default construction (the hook defers, the display is not
  \<open>none\<close>) gets the box chosen from its display, and appended to it in document order: a
  text box for the leading text when it is not empty, then for each child node the box
  built for it when it is an element and is not pruned (comments and processing
  instructions build no box of their own), then a text box for the tail of that node,
  element or not, when it is not empty.
\<close>

theorem dom_to_box_children_in_document_order:
  assumes "dom_to_box h r (Element tg e txt ta cs) = Inr (Some box)"
    and "h (Element tg e txt ta cs) = None"
  shows "\<exists>b0. make_box r e = Inr b0 \<and>
     box = set_children b0
             (box_children b0 @ (if txt \<noteq> [] then [TextBox e txt] else [])
              @ concat (map (child_boxes h r e) cs))"
proof -
  from assms obtain b0 where b0: "make_box r e = Inr b0"
    and l: "dom_to_box_children h r e cs
              (if txt \<noteq> [] then add_child b0 (TextBox e txt) else b0) = Inr (Some box)"
    by (auto split: if_splits sum.splits)
  have p: "is_ParentBox b0" using b0 by (rule make_box_parent)
  then have "is_ParentBox (if txt \<noteq> [] then add_child b0 (TextBox e txt) else b0)"
    by (simp add: add_child_parent)
  from dom_to_box_children_spec[OF this l] p b0 show ?thesis
    by (auto simp: add_child_parent)
qed

theorem dom_to_box_children_in_document_order_witness:
  "dom_to_box (\<lambda>x. None) (\<lambda>uri. None)
     (Element (Some ''p'') (example_elem 0 ''block'' ''normal'') [97] []
        [Element None (example_elem 1 ''inline'' ''normal'') [120] [98] [],
         Element (Some ''em'') (example_elem 2 ''inline'' ''normal'') [99] [100] [],
         Element (Some ''i'') (example_elem 3 ''none'' ''normal'') [121] [101] []]) =
   Inr (Some (BlockBox (example_elem 0 ''block'' ''normal'') None
     [TextBox (example_elem 0 ''block'' ''normal'') [97],
      TextBox (example_elem 0 ''block'' ''normal'') [98],
      InlineBox (example_elem 2 ''inline'' ''normal'')
        [TextBox (example_elem 2 ''inline'' ''normal'') [99]],
      TextBox (example_elem 0 ''block'' ''normal'') [100],
      TextBox (example_elem 0 ''block'' ''normal'') [101]]))
   \<and> (\<exists>b0. make_box (\<lambda>uri. None) (example_elem 0 ''block'' ''normal'') = Inr b0 \<and>
     BlockBox (example_elem 0 ''block'' ''normal'') None
     [TextBox (example_elem 0 ''block'' ''normal'') [97],
      TextBox (example_elem 0 ''block'' ''normal'') [98],
      InlineBox (example_elem 2 ''inline'' ''normal'')
        [TextBox (example_elem 2 ''inline'' ''normal'') [99]],
      TextBox (example_elem 0 ''block'' ''normal'') [100],
      TextBox (example_elem 0 ''block'' ''normal'') [101]] =
     set_children b0
       (box_children b0 @ [TextBox (example_elem 0 ''block'' ''normal'') [97]]
        @ concat (map (child_boxes (\<lambda>x. None) (\<lambda>uri. None) (example_elem 0 ''block'' ''normal''))
            [Element None (example_elem 1 ''inline'' ''normal'') [120] [98] [],
             Element (Some ''em'') (example_elem 2 ''inline'' ''normal'') [99] [100] [],
             Element (Some ''i'') (example_elem 3 ''none'' ''normal'') [121] [101] []])))"
proof -
  have a: "dom_to_box (\<lambda>x. None) (\<lambda>uri. None)
     (Element (Some ''p'') (example_elem 0 ''block'' ''normal'') [97] []
        [Element None (example_elem 1 ''inline'' ''normal'') [120] [98] [],
         Element (Some ''em'') (example_elem 2 ''inline'' ''normal'') [99] [100] [],
         Element (Some ''i'') (example_elem 3 ''none'' ''normal'') [121] [101] []]) =
   Inr (Some (BlockBox (example_elem 0 ''block'' ''normal'') None
     [TextBox (example_elem 0 ''block'' ''normal'') [97],
      TextBox (example_elem 0 ''block'' ''normal'') [98],
      InlineBox (example_elem 2 ''inline'' ''normal'')
        [TextBox (example_elem 2 ''inline'' ''normal'') [99]],
      TextBox (example_elem 0 ''block'' ''normal'') [100],
      TextBox (example_elem 0 ''block'' ''normal'') [101]]))"
    by (simp add: make_box_def add_child_def)
  from dom_to_box_children_in_document_order[OF a refl] a show ?thesis by simp
qed

lemma box_origins_parent:
  "is_ParentBox b \<Longrightarrow>
     box_origins (set_children b ds) \<subseteq> box_origins b \<union> (\<Union>c \<in> set ds. box_origins c)"
  by (cases b) auto

lemma box_origins_add_child:
  "is_ParentBox b \<Longrightarrow> box_origins (add_child b c) \<subseteq> box_origins b \<union> box_origins c"
  by (cases b) (auto simp: add_child_def)

lemma marker_for_origins:
  assumes "marker_for resolve e = Inr (Some mb)"
  shows "box_origins mb = {element_id e}"
proof (cases "case list_style_image (style e) of ImageUri uri \<Rightarrow> resolve uri | ImageNone \<Rightarrow> None")
  case None
  show ?thesis
  proof (cases "GLYPH_LIST_MARKERS (list_style_type (style e))")
    case n: None
    with None assms show ?thesis by (simp add: marker_for_def Let_def split: if_splits)
  next
    case (Some g)
    with None assms have "mb = TextBox e g"
      by (simp add: marker_for_def Let_def split: if_splits)
    then show ?thesis by simp
  qed
next
  case (Some s)
  with assms have "mb = ImageMarkerBox e s" by (simp add: marker_for_def Let_def)
  then show ?thesis by simp
qed

lemma add_list_marker_origins:
  assumes "add_list_marker resolve (BlockBox e None []) = Inr b"
  shows "box_origins b \<subseteq> {element_id e}"
proof (cases "marker_for resolve e")
  case (Inl err)
  with assms show ?thesis by simp
next
  case (Inr mo)
  show ?thesis
  proof (cases mo)
    case None
    with Inr assms show ?thesis by auto
  next
    case (Some mb)
    have o: "box_origins mb = {element_id e}"
      using Inr Some by (simp add: marker_for_origins)
    consider "list_style_position (style e) = ''inside''"
      | "list_style_position (style e) \<noteq> ''inside''" "list_style_position (style e) = ''outside''"
      | "list_style_position (style e) \<noteq> ''inside''" "list_style_position (style e) \<noteq> ''outside''"
      by blast
    then show ?thesis
    proof cases
      case 1
      with Inr Some assms have "b = BlockBox e None [mb, TextBox e [NBSP]]"
        by (simp add: add_child_def)
      with o show ?thesis by simp
    next
      case 2
      with Inr Some assms have "b = BlockBox e (Some mb) []" by simp
      with o show ?thesis by simp
    next
      case 3
      with Inr Some assms have "b = BlockBox e None []" by simp
      then show ?thesis by simp
    qed
  qed
qed

lemma make_box_origins:
  assumes "make_box resolve e = Inr b"
  shows "box_origins b \<subseteq> {element_id e}"
proof (cases "display (style e) = ''list-item''")
  case True
  with assms have "add_list_marker resolve (BlockBox e None []) = Inr b"
    by (simp add: make_box_def Let_def)
  then show ?thesis by (rule add_list_marker_origins)
next
  case False
  with assms have "b = BlockBox e None [] \<or> b = InlineBox e [] \<or> b = InlineBlockBox e []"
    by (simp add: make_box_def Let_def split: if_splits)
  then show ?thesis by auto
qed

lemma dom_to_box_origins:
  "hook_keeps_origin h \<Longrightarrow> dom_to_box h r el = Inr (Some b) \<Longrightarrow> box_origins b \<subseteq> unpruned_ids el"
  "hook_keeps_origin h \<Longrightarrow> is_ParentBox box \<Longrightarrow>
   dom_to_box_children h r e cs box = Inr (Some box') \<Longrightarrow>
     box_origins box' \<subseteq> box_origins box \<union> {element_id e} \<union> (\<Union>c \<in> set cs. unpruned_ids c)"
proof (induction h r el and h r e cs box arbitrary: b and box'
    rule: dom_to_box_dom_to_box_children.induct)
  case (1 h r tg e tx ta cs)
  show ?case
  proof (cases "h (Element tg e tx ta cs)")
    case (Some res)
    with "1.prems"(2) have br: "b = res" and nn: "display (style e) \<noteq> ''none''"
      by (auto split: if_splits)
    from "1.prems"(1) Some have "box_origins res \<subseteq> {element_id (ref (Element tg e tx ta cs))}"
      unfolding hook_keeps_origin_def by blast
    with br nn show ?thesis by auto
  next
    case None
    with "1.prems" obtain b0 where b0: "make_box r e = Inr b0"
      and nn: "display (style e) \<noteq> ''none''"
      and l: "dom_to_box_children h r e cs
              (if tx \<noteq> [] then add_child b0 (TextBox e tx) else b0) = Inr (Some b)"
      by (auto split: if_splits sum.splits)
    let ?b1 = "if tx \<noteq> [] then add_child b0 (TextBox e tx) else b0"
    have p: "is_ParentBox ?b1" using make_box_parent[OF b0] by (simp add: add_child_parent)
    have o: "box_origins ?b1 \<subseteq> {element_id e}"
      using make_box_origins[OF b0] box_origins_add_child[OF make_box_parent[OF b0], of "TextBox e tx"]
      by auto
    from "1.IH"[OF nn None b0 "1.prems"(1) p l] o nn show ?thesis by auto
  qed
next
  case (2 h r e box)
  then show ?case by auto
next
  case (3 h r e c rest box)
  let ?step = "if tag c \<noteq> None then
              (case dom_to_box h r c of
                 Inl err \<Rightarrow> Inl err
               | Inr None \<Rightarrow> Inr box
               | Inr (Some child_box) \<Rightarrow> Inr (add_child box child_box))
            else Inr box"
  from "3.prems"(3) obtain b1 where s: "?step = Inr b1"
    and l: "dom_to_box_children h r e rest
              (if etail c \<noteq> [] then add_child b1 (TextBox e (etail c)) else b1) = Inr (Some box')"
    by (cases ?step) simp_all
  have b1: "is_ParentBox b1 \<and> box_origins b1 \<subseteq> box_origins box \<union> unpruned_ids c"
  proof (cases "tag c \<noteq> None")
    case False
    with s "3.prems"(2) show ?thesis by auto
  next
    case True
    show ?thesis
    proof (cases "dom_to_box h r c")
      case (Inl err)
      with True s show ?thesis by simp
    next
      case (Inr res)
      show ?thesis
      proof (cases res)
        case None
        with True Inr s "3.prems"(2) show ?thesis by auto
      next
        case (Some cb)
        from "3.IH"(1)[OF True "3.prems"(1)] Inr Some
        have "box_origins cb \<subseteq> unpruned_ids c" by simp
        moreover have "b1 = add_child box cb" using True Inr Some s by simp
        ultimately show ?thesis
          using box_origins_add_child[OF "3.prems"(2), of cb] "3.prems"(2)
          by (auto simp: add_child_parent)
      qed
    qed
  qed
  let ?b2 = "if etail c \<noteq> [] then add_child b1 (TextBox e (etail c)) else b1"
  have p2: "is_ParentBox ?b2" using b1 by (simp add: add_child_parent)
  have o2: "box_origins ?b2 \<subseteq> box_origins b1 \<union> {element_id e}"
    using box_origins_add_child[of b1 "TextBox e (etail c)"] b1 by auto
  from "3.IH"(2)[OF s "3.prems"(1) p2 l] o2 b1 show ?case by auto
qed

lemma unpruned_ids_subset: "unpruned_ids el \<subseteq> set (id_list el)"
  by (induction el) auto

lemma pruned_ids_subset: "pruned_ids el \<subseteq> set (id_list el)"
  by (induction el) auto

lemma disjoint_parts:
  fixes A B U P S T :: "'a set"
  assumes "U \<inter> P = {}" "A \<inter> B = {}" "U \<subseteq> S" "P \<subseteq> S" "A \<subseteq> T" "B \<subseteq> T" "T \<inter> S = {}"
  shows "(A \<union> U) \<inter> (B \<union> P) = {}"
  using assms by blast

lemma unpruned_pruned_children:
  assumes "\<And>c. c \<in> set cs \<Longrightarrow> distinct (id_list c) \<Longrightarrow> unpruned_ids c \<inter> pruned_ids c = {}"
    and "distinct (concat (map id_list cs))"
  shows "(\<Union>c \<in> set cs. unpruned_ids c) \<inter> (\<Union>c \<in> set cs. pruned_ids c) = {}"
  using assms
proof (induction cs)
  case Nil
  show ?case by simp
next
  case (Cons c cs)
  from Cons.prems(2) have d: "distinct (id_list c)" "distinct (concat (map id_list cs))"
    and x: "set (id_list c) \<inter> set (concat (map id_list cs)) = {}"
    by auto
  have ih: "(\<Union>c \<in> set cs. unpruned_ids c) \<inter> (\<Union>c \<in> set cs. pruned_ids c) = {}"
    by (rule Cons.IH) (use Cons.prems(1) d(2) in auto)
  have c: "unpruned_ids c \<inter> pruned_ids c = {}" using Cons.prems(1)[of c] d(1) by simp
  have u: "(\<Union>c \<in> set cs. unpruned_ids c) \<subseteq> set (concat (map id_list cs))"
    using unpruned_ids_subset by fastforce
  have p: "(\<Union>c \<in> set cs. pruned_ids c) \<subseteq> set (concat (map id_list cs))"
    using pruned_ids_subset by fastforce
  have uc: "unpruned_ids c \<subseteq> set (id_list c)" by (rule unpruned_ids_subset)
  have pc: "pruned_ids c \<subseteq> set (id_list c)" by (rule pruned_ids_subset)
  have "(unpruned_ids c \<union> (\<Union>c \<in> set cs. unpruned_ids c))
          \<inter> (pruned_ids c \<union> (\<Union>c \<in> set cs. pruned_ids c)) = {}"
    by (rule disjoint_parts[OF ih c u p uc pc x])
  then show ?case by simp
qed

lemma unpruned_pruned_disjoint:
  "distinct (id_list el) \<Longrightarrow> unpruned_ids el \<inter> pruned_ids el = {}"
proof (induction el)
  case (Element tg e tx ta cs)
  show ?case
  proof (cases "display (style e) = ''none''")
    case True
    then show ?thesis by simp
  next
    case False
    from Element.prems have d: "distinct (concat (map id_list cs))"
      and n: "element_id e \<notin> set (concat (map id_list cs))" by auto
    have "(\<Union>c \<in> set cs. unpruned_ids c) \<inter> (\<Union>c \<in> set cs. pruned_ids c) = {}"
      by (rule unpruned_pruned_children) (use Element.IH d in auto)
    moreover have "(\<Union>c \<in> set cs. pruned_ids c) \<subseteq> set (concat (map id_list cs))"
      using pruned_ids_subset by fastforce
    ultimately show ?thesis using False n by auto
  qed
qed

text \<open>
  C8. An element whose display is \<open>none\<close> builds nothing, whatever the hook would answer
  for it. In the tree built for a document whose nodes are distinct, with a hook that
  builds boxes of the handled element only, no box originates from an element whose
  display is \<open>none\<close> or from a descendant of such an element.
\<close>

theorem display_none_prunes_subtree:
  assumes "hook_keeps_origin h" and "distinct (id_list root)"
  shows "(display (style (ref el)) = ''none'' \<longrightarrow> dom_to_box h r el = Inr None)
     \<and> (dom_to_box h r root = Inr (Some box) \<longrightarrow> box_origins box \<inter> pruned_ids root = {})"
proof (intro conjI impI)
  assume "display (style (ref el)) = ''none''"
  then show "dom_to_box h r el = Inr None" by (cases el) simp
next
  assume "dom_to_box h r root = Inr (Some box)"
  from dom_to_box_origins(1)[OF assms(1) this] unpruned_pruned_disjoint[OF assms(2)]
  show "box_origins box \<inter> pruned_ids root = {}" by auto
qed

theorem display_none_prunes_subtree_witness:
  "dom_to_box (\<lambda>x. None) (\<lambda>uri. None)
     (Element (Some ''i'') (example_elem 3 ''none'' ''normal'') [121] [101]
        [Element (Some ''b'') (example_elem 4 ''inline'' ''normal'') [122] [] []]) = Inr None
   \<and> dom_to_box (\<lambda>x. None) (\<lambda>uri. None)
     (Element (Some ''p'') (example_elem 0 ''block'' ''normal'') [97] []
        [Element (Some ''i'') (example_elem 3 ''none'' ''normal'') [121] [101]
           [Element (Some ''b'') (example_elem 4 ''inline'' ''normal'') [122] [] []]]) =
     Inr (Some (BlockBox (example_elem 0 ''block'' ''normal'') None
       [TextBox (example_elem 0 ''block'' ''normal'') [97],
        TextBox (example_elem 0 ''block'' ''normal'') [101]]))
   \<and> pruned_ids
     (Element (Some ''p'') (example_elem 0 ''block'' ''normal'') [97] []
        [Element (Some ''i'') (example_elem 3 ''none'' ''normal'') [121] [101]
           [Element (Some ''b'') (example_elem 4 ''inline'' ''normal'') [122] [] []]]) = {3, 4}
   \<and> box_origins (BlockBox (example_elem 0 ''block'' ''normal'') None
       [TextBox (example_elem 0 ''block'' ''normal'') [97],
        TextBox (example_elem 0 ''block'' ''normal'') [101]])
     \<inter> pruned_ids
     (Element (Some ''p'') (example_elem 0 ''block'' ''normal'') [97] []
        [Element (Some ''i'') (example_elem 3 ''none'' ''normal'') [121] [101]
           [Element (Some ''b'') (example_elem 4 ''inline'' ''normal'') [122] [] []]]) = {}"
proof -
  let ?i = "Element (Some ''i'') (example_elem 3 ''none'' ''normal'') [121] [101]
        [Element (Some ''b'') (example_elem 4 ''inline'' ''normal'') [122] [] []]"
  let ?p = "Element (Some ''p'') (example_elem 0 ''block'' ''normal'') [97] [] [?i]"
  have h: "hook_keeps_origin (\<lambda>x. None)" by (simp add: hook_keeps_origin_def)
  have d: "distinct (id_list ?p)" by simp
  have b: "dom_to_box (\<lambda>x. None) (\<lambda>uri. None) ?p =
     Inr (Some (BlockBox (example_elem 0 ''block'' ''normal'') None
       [TextBox (example_elem 0 ''block'' ''normal'') [97],
        TextBox (example_elem 0 ''block'' ''normal'') [101]]))"
    by (simp add: make_box_def add_child_def)
  have p: "pruned_ids ?p = {3, 4}" by simp
  have c1: "dom_to_box (\<lambda>x. None) (\<lambda>uri. None) ?i = Inr None"
    using display_none_prunes_subtree[OF h d, of ?i] by simp
  have c4: "box_origins (BlockBox (example_elem 0 ''block'' ''normal'') None
       [TextBox (example_elem 0 ''block'' ''normal'') [97],
        TextBox (example_elem 0 ''block'' ''normal'') [101]]) \<inter> pruned_ids ?p = {}"
    using display_none_prunes_subtree[OF h d] b by blast
  show ?thesis by (intro conjI) (rule c1 b p c4)+
qed

section \<open>Properties of ListMarkerInserter\<close>

text \<open>
  C7. Given a list-item block box: a configured image that the resolver resolves gives an
  image marker box of the resolved image; an image that does not resolve, or no image,
  gives the glyph of \<open>list-style-type\<close> (disc, circle, square); the type \<open>none\<close> without a
  resolved image gives no marker and leaves the box as it is. A marker positioned inside
  a box without children becomes its first child, followed by a text box of one no-break
  space; positioned outside it is stored beside the children. So a disc list item
  without image, positioned inside, gets the bullet and the no-break space as its two
  children.
\<close>

theorem add_list_marker_cases:
  "(list_style_image (style e) = ImageUri uri \<and> resolve uri = Some s \<longrightarrow>
      marker_for resolve e = Inr (Some (ImageMarkerBox e s)))
   \<and> (list_style_image (style e) = ImageNone \<or>
        (list_style_image (style e) = ImageUri uri \<and> resolve uri = None) \<longrightarrow>
        (list_style_type (style e) = ''disc'' \<longrightarrow>
           marker_for resolve e = Inr (Some (TextBox e [BULLET])))
        \<and> (list_style_type (style e) = ''circle'' \<longrightarrow>
           marker_for resolve e = Inr (Some (TextBox e [WHITE_BULLET])))
        \<and> (list_style_type (style e) = ''square'' \<longrightarrow>
           marker_for resolve e = Inr (Some (TextBox e [BLACK_SMALL_SQUARE])))
        \<and> (list_style_type (style e) = ''none'' \<longrightarrow>
           marker_for resolve e = Inr None
           \<and> add_list_marker resolve (BlockBox e m cs) = Inr (BlockBox e m cs)))
   \<and> (marker_for resolve e = Inr (Some marker_box) \<longrightarrow>
        (list_style_position (style e) = ''inside'' \<longrightarrow>
           add_list_marker resolve (BlockBox e m []) =
             Inr (BlockBox e m [marker_box, TextBox e [NBSP]]))
        \<and> (list_style_position (style e) = ''outside'' \<longrightarrow>
           add_list_marker resolve (BlockBox e m cs) = Inr (BlockBox e (Some marker_box) cs)))
   \<and> (list_style_image (style e) = ImageNone \<and> list_style_type (style e) = ''disc''
        \<and> list_style_position (style e) = ''inside'' \<longrightarrow>
        add_list_marker resolve (BlockBox e m []) =
          Inr (BlockBox e m [TextBox e [BULLET], TextBox e [NBSP]]))"
  by (auto simp: marker_for_def GLYPH_LIST_MARKERS_def add_child_def Let_def)

theorem add_list_marker_cases_witness:
  "add_list_marker (\<lambda>uri. None) (BlockBox (example_elem 1 ''list-item'' ''normal'') None []) =
     Inr (BlockBox (example_elem 1 ''list-item'' ''normal'') None
            [TextBox (example_elem 1 ''list-item'' ''normal'') [BULLET],
             TextBox (example_elem 1 ''list-item'' ''normal'') [NBSP]])
   \<and> marker_for (\<lambda>uri. Some 7)
        (example_elem 1 ''list-item'' ''normal''
           \<lparr>style := (style (example_elem 1 ''list-item'' ''normal''))
              \<lparr>list_style_image := ImageUri ''marker.png''\<rparr>\<rparr>) =
       Inr (Some (ImageMarkerBox
         (example_elem 1 ''list-item'' ''normal''
           \<lparr>style := (style (example_elem 1 ''list-item'' ''normal''))
              \<lparr>list_style_image := ImageUri ''marker.png''\<rparr>\<rparr>) 7))"
  using add_list_marker_cases [of "example_elem 1 ''list-item'' ''normal''" "''marker.png''"
      "\<lambda>uri. None" 0 None "[]" "TextBox (example_elem 1 ''list-item'' ''normal'') [BULLET]"]
    add_list_marker_cases [of "example_elem 1 ''list-item'' ''normal''
           \<lparr>style := (style (example_elem 1 ''list-item'' ''normal''))
              \<lparr>list_style_image := ImageUri ''marker.png''\<rparr>\<rparr>" "''marker.png''"
      "\<lambda>uri. Some 7" 7 None "[]" "TextBox (example_elem 1 ''list-item'' ''normal'') [BULLET]"]
  by simp

section \<open>Properties of WhitespaceCollapser\<close>

lemma mark_breaks_Nil: "mark_breaks [] = []"
  by (simp add: mark_breaks_def)

lemma mark_breaks_Cons:
  "mark_breaks (c # t) =
     (if c = NBSP \<and> (case t of [] \<Rightarrow> True | d # rest \<Rightarrow> d \<noteq> NBSP) then [NBSP, ZWSP] else [c])
     @ mark_breaks t"
proof -
  have u: "[0..<Suc (length t)] = 0 # map Suc [0..<length t]"
    by (simp add: upt_conv_Cons map_Suc_upt del: upt_Suc)
  have "mark_breaks (c # t) =
     (if c = NBSP \<and> (if 0 < length t then t ! 0 \<noteq> NBSP else True) then [NBSP, ZWSP] else [c])
     @ mark_breaks t"
    unfolding mark_breaks_def length_Cons u by (simp add: comp_def del: upt_Suc cong: if_cong)
  then show ?thesis by (cases t) simp_all
qed

lemma sub_break_opportunity_mark_breaks: "sub_break_opportunity t = mark_breaks t"
  by (induction t rule: sub_break_opportunity.induct)
     (simp_all add: mark_breaks_Nil mark_breaks_Cons)

lemma thread_append:
  "thread fl (xs @ ys) =
     (case thread fl xs of (xs', fl') \<Rightarrow>
        (case thread fl' ys of (ys', fl'') \<Rightarrow> (xs' @ ys', fl'')))"
  by (induction fl xs rule: thread.induct) (auto split: prod.splits)

lemma process_descendants_thread:
  "thread fl (all_texts b) =
     (all_texts (fst (process_descendants fl b)), snd (process_descendants fl b))"
  "thread fl (all_texts_list bs) =
     (all_texts_list (fst (process_descendants_list fl bs)),
      snd (process_descendants_list fl bs))"
  by (induction fl b and fl bs rule: process_descendants_process_descendants_list.induct)
     (auto simp: thread_append split: prod.splits)

lemma process_text_collapsing:
  assumes "collapsing h"
  shows "process_text h False t =
           (fst (process_text h False t), endswith_space (fst (process_text h False t)))"
    and "process_text h True t =
           (let c = fst (process_text h False t);
                r = (if startswith_space c then tl c else c)
            in (r, endswith_space r))"
  using assms by (auto simp: process_text_def collapsing_def Let_def)

lemma process_text_pre:
  assumes "h = ''pre'' \<or> h = ''pre-wrap''"
  shows "process_text h fl t =
     (if h = ''pre-wrap''
      then mark_breaks (map (\<lambda>c. if c = SPACE then NBSP else c) t)
      else map (\<lambda>c. if c = SPACE then NBSP else c) t,
      False)"
  using assms by (auto simp: process_text_def replace_def sub_break_opportunity_mark_breaks)

lemma length_thread: "length (fst (thread fl xs)) = length xs"
  by (induction fl xs rule: thread.induct) (auto split: prod.splits)

lemma thread_Cons:
  "fst (thread fl ((e, t) # xs)) =
     (e, if t = [] then t else fst (process_text (white_space (style e)) fl t))
     # fst (thread (if t = [] then fl else snd (process_text (white_space (style e)) fl t)) xs)"
  by (auto split: prod.splits)

lemma thread_pre:
  assumes "i < length xs" and "xs ! i = (e, t)"
    and "white_space (style e) = ''pre'' \<or> white_space (style e) = ''pre-wrap''"
  shows "fst (thread fl xs) ! i =
     (e, if white_space (style e) = ''pre-wrap''
         then mark_breaks (map (\<lambda>c. if c = SPACE then NBSP else c) t)
         else map (\<lambda>c. if c = SPACE then NBSP else c) t)"
  using assms
proof (induction xs arbitrary: fl i)
  case Nil
  then show ?case by simp
next
  case (Cons x xs)
  obtain e0 t0 where x: "x = (e0, t0)" by (cases x)
  show ?case
  proof (cases i)
    case 0
    then have xe: "e0 = e" "t0 = t" using Cons.prems(2) x by simp_all
    show ?thesis
    proof (cases "t = []")
      case True
      then show ?thesis unfolding x xe thread_Cons 0 by (simp add: mark_breaks_Nil)
    next
      case False
      then show ?thesis
        unfolding x xe thread_Cons 0 using process_text_pre[OF Cons.prems(3), of fl t] by simp
    qed
  next
    case (Suc j)
    then have "j < length xs" "xs ! j = (e, t)" using Cons.prems by simp_all
    from Cons.IH[OF this Cons.prems(3)] show ?thesis unfolding x thread_Cons Suc by simp
  qed
qed

text \<open>
  C9. In the tree the collapser leaves, every text leaf in \<open>pre\<close> or \<open>pre-wrap\<close> mode, at
  any depth and whatever the leaves before it left pending, keeps its place among the text
  leaves in document order and its element, and has every space replaced by a no-break
  space, one for one and with nothing collapsed or dropped; in \<open>pre-wrap\<close> mode a
  zero-width break opportunity is then inserted after every no-break space that is not
  followed by another no-break space. The text \<open>a  b\<close> becomes \<open>a\<close>, two no-break spaces,
  \<open>b\<close>.
\<close>

theorem pre_modes_keep_spaces:
  assumes "i < length (all_texts b)" and "all_texts b ! i = (e, t)"
    and "white_space (style e) = ''pre'' \<or> white_space (style e) = ''pre-wrap''"
  shows "length (all_texts (process_whitespace b)) = length (all_texts b)
     \<and> all_texts (process_whitespace b) ! i =
         (e, if white_space (style e) = ''pre-wrap''
             then mark_breaks (map (\<lambda>c. if c = SPACE then NBSP else c) t)
             else map (\<lambda>c. if c = SPACE then NBSP else c) t)"
proof -
  have a: "all_texts (process_whitespace b) = fst (thread False (all_texts b))"
    by (simp add: process_whitespace_def process_descendants_thread(1))
  show ?thesis unfolding a using length_thread thread_pre[OF assms] by simp
qed

theorem pre_modes_keep_spaces_witness:
  "all_texts (process_whitespace
     (BlockBox (example_elem 0 ''block'' ''normal'') None
        [LineBox (example_elem 0 ''block'' ''normal'')
           [TextBox (example_elem 0 ''block'' ''normal'') [97, SPACE],
            InlineBox (example_elem 1 ''inline'' ''pre'')
              [TextBox (example_elem 1 ''inline'' ''pre'') [SPACE, 97, SPACE, SPACE, 98]],
            InlineBox (example_elem 2 ''inline'' ''pre-wrap'')
              [InlineBox (example_elem 3 ''inline'' ''pre-wrap'')
                 [TextBox (example_elem 3 ''inline'' ''pre-wrap'')
                    [97, SPACE, SPACE, 98, SPACE]]]]])) ! 1 =
     (example_elem 1 ''inline'' ''pre'', [NBSP, 97, NBSP, NBSP, 98])
   \<and> all_texts (process_whitespace
     (BlockBox (example_elem 0 ''block'' ''normal'') None
        [LineBox (example_elem 0 ''block'' ''normal'')
           [TextBox (example_elem 0 ''block'' ''normal'') [97, SPACE],
            InlineBox (example_elem 1 ''inline'' ''pre'')
              [TextBox (example_elem 1 ''inline'' ''pre'') [SPACE, 97, SPACE, SPACE, 98]],
            InlineBox (example_elem 2 ''inline'' ''pre-wrap'')
              [InlineBox (example_elem 3 ''inline'' ''pre-wrap'')
                 [TextBox (example_elem 3 ''inline'' ''pre-wrap'')
                    [97, SPACE, SPACE, 98, SPACE]]]]])) ! 2 =
     (example_elem 3 ''inline'' ''pre-wrap'', [97, NBSP, NBSP, ZWSP, 98, NBSP, ZWSP])"
proof -
  let ?e0 = "example_elem 0 ''block'' ''normal''"
  let ?e1 = "example_elem 1 ''inline'' ''pre''"
  let ?e2 = "example_elem 2 ''inline'' ''pre-wrap''"
  let ?e3 = "example_elem 3 ''inline'' ''pre-wrap''"
  let ?b = "BlockBox ?e0 None
        [LineBox ?e0
           [TextBox ?e0 [97, SPACE],
            InlineBox ?e1 [TextBox ?e1 [SPACE, 97, SPACE, SPACE, 98]],
            InlineBox ?e2 [InlineBox ?e3 [TextBox ?e3 [97, SPACE, SPACE, 98, SPACE]]]]]"
  have t: "all_texts ?b =
      [(?e0, [97, SPACE]), (?e1, [SPACE, 97, SPACE, SPACE, 98]),
       (?e3, [97, SPACE, SPACE, 98, SPACE])]"
    by simp
  have m: "mark_breaks [97, NBSP, NBSP, 98, NBSP] = [97, NBSP, NBSP, ZWSP, 98, NBSP, ZWSP]"
    by (simp add: mark_breaks_Cons mark_breaks_Nil)
  have i1: "1 < length (all_texts ?b)" unfolding t by simp
  have x1: "all_texts ?b ! 1 = (?e1, [SPACE, 97, SPACE, SPACE, 98])" unfolding t by simp
  have w1: "white_space (style ?e1) = ''pre'' \<or> white_space (style ?e1) = ''pre-wrap''"
    by simp
  have i2: "2 < length (all_texts ?b)" unfolding t by simp
  have x2: "all_texts ?b ! 2 = (?e3, [97, SPACE, SPACE, 98, SPACE])" unfolding t by simp
  have w2: "white_space (style ?e3) = ''pre'' \<or> white_space (style ?e3) = ''pre-wrap''"
    by simp
  have r1: "all_texts (process_whitespace ?b) ! 1 = (?e1, [NBSP, 97, NBSP, NBSP, 98])"
    using pre_modes_keep_spaces[OF i1 x1 w1] by simp
  have r2: "all_texts (process_whitespace ?b) ! 2 =
      (?e3, [97, NBSP, NBSP, ZWSP, 98, NBSP, ZWSP])"
    using pre_modes_keep_spaces[OF i2 x2 w2] by (simp add: m)
  show ?thesis using r1 r2 by (intro conjI)
qed

text \<open>
  C6. One flag is carried across the visited text leaves in document order, starting
  false. In a collapsing mode the flag after a leaf says whether the resulting text ends
  with a space, and a leaf entered with the flag set loses the leading space of its
  collapsed text; in every other mode the flag after the leaf is false.
\<close>

theorem pending_space_threading:
  "all_texts (process_whitespace b) = fst (thread False (all_texts b))
   \<and> (collapsing h \<longrightarrow>
        process_text h False t =
          (fst (process_text h False t), endswith_space (fst (process_text h False t)))
        \<and> process_text h True t =
          (let c = fst (process_text h False t);
               r = (if startswith_space c then tl c else c)
           in (r, endswith_space r)))
   \<and> (\<not> collapsing h \<longrightarrow> snd (process_text h fl t) = False)"
proof (intro conjI impI)
  show "all_texts (process_whitespace b) = fst (thread False (all_texts b))"
    by (simp add: process_whitespace_def process_descendants_thread(1))
next
  assume "collapsing h"
  then show "process_text h False t =
          (fst (process_text h False t), endswith_space (fst (process_text h False t)))"
    by (rule process_text_collapsing(1))
next
  assume "collapsing h"
  then show "process_text h True t =
          (let c = fst (process_text h False t);
               r = (if startswith_space c then tl c else c)
           in (r, endswith_space r))"
    by (rule process_text_collapsing(2))
next
  assume "\<not> collapsing h"
  then show "snd (process_text h fl t) = False"
    by (auto simp: process_text_def collapsing_def Let_def)
qed

theorem pending_space_threading_witness:
  "all_texts (process_whitespace
      (BlockBox (example_elem 1 ''block'' ''normal'') None
         [TextBox (example_elem 1 ''block'' ''normal'') [102, 111, 111, SPACE],
          TextBox (example_elem 1 ''block'' ''normal'') [SPACE, 98, 97, 114]])) =
     [(example_elem 1 ''block'' ''normal'', [102, 111, 111, SPACE]),
      (example_elem 1 ''block'' ''normal'', [98, 97, 114])]"
proof -
  have a: "process_text ''normal'' False [102, 111, 111, SPACE] = ([102, 111, 111, SPACE], True)"
    by (simp add: process_text_def sub_around_newline.simps replace_def sub_spaces.simps
        is_tab_cr_space_def startswith_space_def endswith_space_def)
  have b: "process_text ''normal'' True [SPACE, 98, 97, 114] = ([98, 97, 114], False)"
    by (simp add: process_text_def sub_around_newline.simps replace_def sub_spaces.simps
        is_tab_cr_space_def startswith_space_def endswith_space_def)
  show ?thesis
    using pending_space_threading [of "BlockBox (example_elem 1 ''block'' ''normal'') None
         [TextBox (example_elem 1 ''block'' ''normal'') [102, 111, 111, SPACE],
          TextBox (example_elem 1 ''block'' ''normal'') [SPACE, 98, 97, 114]]" "''normal''" "[]" False]
    by (simp add: a b)
qed

lemma process_descendants_same_structure:
  "same_structure b (fst (process_descendants fl b))"
  "same_structure_list bs (fst (process_descendants_list fl bs))"
  by (induction fl b and fl bs rule: process_descendants_process_descendants_list.induct)
     (auto split: prod.splits)

text \<open>
  C10. \<open>process_whitespace\<close> returns the box it was given, changed in place, and the tree
  keeps its boxes, their variants, elements, outside markers and order: only the text
  of a text box whose text was not empty may differ.
\<close>

theorem process_whitespace_keeps_structure:
  "same_structure b (process_whitespace b)"
  by (simp add: process_whitespace_def process_descendants_same_structure(1))

section \<open>Properties of InlineBlockNormalizer\<close>

lemma box_element_set_children [simp]: "box_element (set_children b ds) = box_element b"
  by (cases b) simp_all

lemma box_element_add_child [simp]: "box_element (add_child b c) = box_element b"
  by (simp add: add_child_def)

lemma set_children_same: "box_children b = ds \<Longrightarrow> set_children b ds = b"
  by auto

lemma merge_lines_simps [simp]:
  "merge_lines [] = []"
  "merge_lines (c # cs) = (if is_LineBox c then box_children c else [c]) @ merge_lines cs"
  by (simp_all add: merge_lines_def)

lemma wrap_runs_run_then: "wrap_runs e cs = run_then e [] cs"
  by (cases cs) (simp_all add: run_then_def wrap_line_def)

lemma run_then_block:
  assumes "is_BlockLevelBox c"
  shows "run_then e pending (c # cs) = wrap_line e pending @ c # run_then e [] cs"
proof -
  have "run_then e pending (c # cs) = wrap_line e pending @ c # wrap_runs e cs"
    using assms by (simp add: run_then_def)
  then show ?thesis by (simp only: wrap_runs_run_then)
qed

lemma run_then_inline:
  "\<not> is_BlockLevelBox c \<Longrightarrow>
     run_then e pending (c # cs) =
     run_then e (pending @ (if is_LineBox c then box_children c else [c])) cs"
  by (simp add: run_then_def)

lemma foldl_add_child_line: "foldl add_child (LineBox e p) xs = LineBox e (p @ xs)"
  by (induction xs arbitrary: p) (simp_all add: add_child_def)

lemma wrap_lines_groups:
  assumes "is_ParentBox box"
  shows "wrap_lines box (LineBox (box_element box) pending) cs =
     set_children box
       (box_children box @
        (if box_children box = [] \<and> list_all (\<lambda>c. \<not> is_BlockLevelBox c) cs then
           (if pending @ merge_lines cs = [] then []
            else [LineBox (box_element box) (pending @ merge_lines cs)])
         else run_then (box_element box) pending cs))"
  using assms
proof (induction cs arbitrary: box pending)
  case Nil
  show ?case
  proof (cases "pending = []")
    case True
    then show ?thesis by (simp add: set_children_same run_then_def wrap_line_def)
  next
    case False
    then show ?thesis using Nil.prems
      by (simp add: add_child_parent add_child_def run_then_def wrap_line_def)
  qed
next
  case (Cons c cs)
  let ?e = "box_element box"
  show ?case
  proof (cases "is_BlockLevelBox c")
    case True
    have nl: "\<not> is_LineBox c" using True by (cases c) simp_all
    show ?thesis
    proof (cases "pending = []")
      case p: True
      let ?b1 = "add_child box c"
      have p1: "is_ParentBox ?b1" using Cons.prems by (simp add: add_child_parent)
      have "wrap_lines ?b1 (LineBox (box_element ?b1) []) cs =
          set_children ?b1 (box_children ?b1 @ run_then (box_element ?b1) [] cs)"
        using Cons.IH[OF p1, of "[]"] Cons.prems by (simp add: add_child_parent)
      then show ?thesis using True p Cons.prems
        by (simp add: add_child_parent run_then_block wrap_line_def)
    next
      case p: False
      let ?b1 = "add_child (add_child box (AnonymousBlockBox ?e [LineBox ?e pending])) c"
      have p1: "is_ParentBox ?b1" using Cons.prems by (simp add: add_child_parent)
      have "wrap_lines ?b1 (LineBox (box_element ?b1) []) cs =
          set_children ?b1 (box_children ?b1 @ run_then (box_element ?b1) [] cs)"
        using Cons.IH[OF p1, of "[]"] Cons.prems by (simp add: add_child_parent)
      then show ?thesis using True p Cons.prems
        by (simp add: add_child_parent add_child_def run_then_block wrap_line_def)
    qed
  next
    case False
    have step: "wrap_lines box (LineBox ?e pending) (c # cs) =
        wrap_lines box (LineBox ?e (pending @ merge_lines [c])) cs"
      using False by (cases "is_LineBox c") (simp_all add: add_child_def foldl_add_child_line)
    have r: "run_then ?e pending (c # cs) = run_then ?e (pending @ merge_lines [c]) cs"
      using False by (simp add: run_then_inline)
    have m: "pending @ merge_lines (c # cs) = (pending @ merge_lines [c]) @ merge_lines cs"
      by simp
    have a: "list_all (\<lambda>c. \<not> is_BlockLevelBox c) (c # cs) =
        list_all (\<lambda>c. \<not> is_BlockLevelBox c) cs"
      using False by simp
    show ?thesis
      unfolding step r m a by (rule Cons.IH[OF Cons.prems])
  qed
qed

lemma wrap_lines_empty_box:
  assumes "is_ParentBox box" and "box_children box = []"
  shows "wrap_lines box (LineBox (box_element box) []) cs =
     set_children box (group_inline_runs (box_element box) cs)"
  using wrap_lines_groups[OF assms(1), of "[]" cs] assms(2)
  by (simp add: group_inline_runs_def wrap_runs_run_then)

lemma fst_inline_in_block: "fst (inline_in_block b) = normalize_box b"
proof (induction b rule: inline_in_block.induct)
  case (1 box)
  have m: "map (\<lambda>child_box. fst (inline_in_block child_box)) (box_children box) =
      map normalize_box (box_children box)"
    using 1 by simp
  show ?case
  proof (cases box)
    case (TextBox e t)
    then show ?thesis by simp
  next
    case (ImageMarkerBox e s)
    then show ?thesis by simp
  next
    case (InlineBox e cs)
    have mm: "map (\<lambda>child_box. fst (inline_in_block child_box)) cs = map normalize_box cs"
      using m InlineBox by simp
    show ?thesis unfolding InlineBox by (simp add: mm)
  next
    case (InlineBlockBox e cs)
    have mm: "map (\<lambda>child_box. fst (inline_in_block child_box)) cs = map normalize_box cs"
      using m InlineBlockBox by simp
    have ww: "wrap_lines (InlineBlockBox e []) (LineBox e []) (map normalize_box cs) =
        InlineBlockBox e (group_inline_runs e (map normalize_box cs))"
      using wrap_lines_empty_box[of "InlineBlockBox e []" "map normalize_box cs"] by simp
    show ?thesis unfolding InlineBlockBox by (simp add: Let_def mm ww)
  next
    case (BlockBox e mk cs)
    have mm: "map (\<lambda>child_box. fst (inline_in_block child_box)) cs = map normalize_box cs"
      using m BlockBox by simp
    have ww: "wrap_lines (BlockBox e mk []) (LineBox e []) (map normalize_box cs) =
        BlockBox e mk (group_inline_runs e (map normalize_box cs))"
      using wrap_lines_empty_box[of "BlockBox e mk []" "map normalize_box cs"] by simp
    show ?thesis unfolding BlockBox by (simp add: Let_def mm ww)
  next
    case (AnonymousBlockBox e cs)
    have mm: "map (\<lambda>child_box. fst (inline_in_block child_box)) cs = map normalize_box cs"
      using m AnonymousBlockBox by simp
    have ww: "wrap_lines (AnonymousBlockBox e []) (LineBox e []) (map normalize_box cs) =
        AnonymousBlockBox e (group_inline_runs e (map normalize_box cs))"
      using wrap_lines_empty_box[of "AnonymousBlockBox e []" "map normalize_box cs"] by simp
    show ?thesis unfolding AnonymousBlockBox by (simp add: Let_def mm ww)
  next
    case (LineBox e cs)
    have mm: "map (\<lambda>child_box. fst (inline_in_block child_box)) cs = map normalize_box cs"
      using m LineBox by simp
    show ?thesis unfolding LineBox by (simp add: mm)
  qed
qed

lemma snd_inline_in_block:
  "snd (inline_in_block b) = (if is_BlockContainerBox b then Some (fst (inline_in_block b)) else None)"
  by (cases b) (simp_all add: Let_def)

text \<open>
  C3. For every box, the normalizer leaves in place the tree the contract \<open>normalize\<close>
  describes, and returns it when the box is a block container. So the children of a
  block container, each normalized first and a line box among them replaced by its
  children, are regrouped in document order: when none is block-level they become the
  children of exactly one line box, without an anonymous block box (and no children give
  no children); otherwise every maximal run of consecutive children that are not
  block-level is wrapped in a line box inside an anonymous block box and every
  block-level child stays a direct child. The children
  \<open>[TextBox, InlineBox, BlockBox]\<close> of a block box become the anonymous block box of the
  line box of the text box and the normalized inline box, then the normalized block box.
\<close>

theorem inline_in_block_groups_runs:
  "inline_in_block b =
     (normalize_box b, if is_BlockContainerBox b then Some (normalize_box b) else None)
   \<and> (if is_BlockContainerBox b
       then box_children (normalize_box b) =
              group_inline_runs (box_element b) (map normalize_box (box_children b))
       else normalize_box b = set_children b (map normalize_box (box_children b)))
   \<and> fst (inline_in_block (BlockBox e m [TextBox e1 t, InlineBox e2 cs, BlockBox e3 m3 ds])) =
       BlockBox e m
         [AnonymousBlockBox e [LineBox e [TextBox e1 t, normalize_box (InlineBox e2 cs)]],
          normalize_box (BlockBox e3 m3 ds)]"
proof (intro conjI)
  show "inline_in_block b =
     (normalize_box b, if is_BlockContainerBox b then Some (normalize_box b) else None)"
    using fst_inline_in_block[of b] snd_inline_in_block[of b]
    by (cases "inline_in_block b"; cases "is_BlockContainerBox b") simp_all
  show "if is_BlockContainerBox b
       then box_children (normalize_box b) =
              group_inline_runs (box_element b) (map normalize_box (box_children b))
       else normalize_box b = set_children b (map normalize_box (box_children b))"
    by (cases b) simp_all
  show "fst (inline_in_block (BlockBox e m [TextBox e1 t, InlineBox e2 cs, BlockBox e3 m3 ds])) =
       BlockBox e m
         [AnonymousBlockBox e [LineBox e [TextBox e1 t, normalize_box (InlineBox e2 cs)]],
          normalize_box (BlockBox e3 m3 ds)]"
    unfolding fst_inline_in_block by (simp add: group_inline_runs_def wrap_line_def)
qed

theorem inline_in_block_groups_runs_witness:
  "inline_in_block
     (BlockBox (example_elem 0 ''block'' ''normal'') None
        [TextBox (example_elem 0 ''block'' ''normal'') [97],
         InlineBox (example_elem 1 ''inline'' ''normal'')
           [TextBox (example_elem 1 ''inline'' ''normal'') [98]],
         BlockBox (example_elem 2 ''block'' ''normal'') None
           [TextBox (example_elem 2 ''block'' ''normal'') [99]]]) =
   (BlockBox (example_elem 0 ''block'' ''normal'') None
      [AnonymousBlockBox (example_elem 0 ''block'' ''normal'')
         [LineBox (example_elem 0 ''block'' ''normal'')
            [TextBox (example_elem 0 ''block'' ''normal'') [97],
             InlineBox (example_elem 1 ''inline'' ''normal'')
               [TextBox (example_elem 1 ''inline'' ''normal'') [98]]]],
       BlockBox (example_elem 2 ''block'' ''normal'') None
         [LineBox (example_elem 2 ''block'' ''normal'')
            [TextBox (example_elem 2 ''block'' ''normal'') [99]]]],
    Some (BlockBox (example_elem 0 ''block'' ''normal'') None
      [AnonymousBlockBox (example_elem 0 ''block'' ''normal'')
         [LineBox (example_elem 0 ''block'' ''normal'')
            [TextBox (example_elem 0 ''block'' ''normal'') [97],
             InlineBox (example_elem 1 ''inline'' ''normal'')
               [TextBox (example_elem 1 ''inline'' ''normal'') [98]]]],
       BlockBox (example_elem 2 ''block'' ''normal'') None
         [LineBox (example_elem 2 ''block'' ''normal'')
            [TextBox (example_elem 2 ''block'' ''normal'') [99]]]]))
   \<and> inline_in_block
       (BlockBox (example_elem 0 ''block'' ''normal'') None
          [LineBox (example_elem 0 ''block'' ''normal'')
             [TextBox (example_elem 0 ''block'' ''normal'') [97]],
           TextBox (example_elem 0 ''block'' ''normal'') [98]]) =
     (BlockBox (example_elem 0 ''block'' ''normal'') None
        [LineBox (example_elem 0 ''block'' ''normal'')
           [TextBox (example_elem 0 ''block'' ''normal'') [97],
            TextBox (example_elem 0 ''block'' ''normal'') [98]]],
      Some (BlockBox (example_elem 0 ''block'' ''normal'') None
        [LineBox (example_elem 0 ''block'' ''normal'')
           [TextBox (example_elem 0 ''block'' ''normal'') [97],
            TextBox (example_elem 0 ''block'' ''normal'') [98]]]))"
proof -
  let ?b = "BlockBox (example_elem 0 ''block'' ''normal'') None
        [TextBox (example_elem 0 ''block'' ''normal'') [97],
         InlineBox (example_elem 1 ''inline'' ''normal'')
           [TextBox (example_elem 1 ''inline'' ''normal'') [98]],
         BlockBox (example_elem 2 ''block'' ''normal'') None
           [TextBox (example_elem 2 ''block'' ''normal'') [99]]]"
  let ?c = "BlockBox (example_elem 0 ''block'' ''normal'') None
          [LineBox (example_elem 0 ''block'' ''normal'')
             [TextBox (example_elem 0 ''block'' ''normal'') [97]],
           TextBox (example_elem 0 ''block'' ''normal'') [98]]"
  have n: "normalize_box ?b =
     BlockBox (example_elem 0 ''block'' ''normal'') None
      [AnonymousBlockBox (example_elem 0 ''block'' ''normal'')
         [LineBox (example_elem 0 ''block'' ''normal'')
            [TextBox (example_elem 0 ''block'' ''normal'') [97],
             InlineBox (example_elem 1 ''inline'' ''normal'')
               [TextBox (example_elem 1 ''inline'' ''normal'') [98]]]],
       BlockBox (example_elem 2 ''block'' ''normal'') None
         [LineBox (example_elem 2 ''block'' ''normal'')
            [TextBox (example_elem 2 ''block'' ''normal'') [99]]]]"
    by (simp add: group_inline_runs_def wrap_line_def)
  have k: "normalize_box ?c =
     BlockBox (example_elem 0 ''block'' ''normal'') None
        [LineBox (example_elem 0 ''block'' ''normal'')
           [TextBox (example_elem 0 ''block'' ''normal'') [97],
            TextBox (example_elem 0 ''block'' ''normal'') [98]]]"
    by (simp add: group_inline_runs_def wrap_line_def)
  have a: "inline_in_block ?b = (normalize_box ?b, Some (normalize_box ?b))"
    using inline_in_block_groups_runs[of ?b] by simp
  have b: "inline_in_block ?c = (normalize_box ?c, Some (normalize_box ?c))"
    using inline_in_block_groups_runs[of ?c] by simp
  show ?thesis using a b unfolding n k by (intro conjI)
qed

text \<open>
  C5. \<open>inline_in_block\<close> on a box that is not a block container normalizes the children
  in place, but the call returns \<open>None\<close>, not the box: an inline box with one text child
  is left as it is and \<open>None\<close> is returned. A document whose root element is displayed
  inline therefore makes \<open>build_formatting_structure\<close> fail.
\<close>

theorem inline_in_block_returns_None:
  "inline_in_block (InlineBox e [TextBox e t]) = (InlineBox e [TextBox e t], None)
   \<and> build_formatting_structure (\<lambda>x. None) (\<lambda>uri. None)
        (Element (Some ''html'') (example_elem 0 ''inline'' ''normal'') [104, 105] [] []) =
       Inl AttributeError"
  by (simp add: build_formatting_structure_def make_box_def add_child_def)

section \<open>Properties of InlineBlockSplitter\<close>

lemmas splitter_eval =
  inner_block_in_inline.simps inner_loop.simps split_loop.simps enumerate_skip_def
  add_child_def empty_def Let_def

text \<open>
  C1. A line box with two sibling inline boxes, the first holding a block box, the second
  holding a text box: the first search finds the block and returns the cursor
  \<open>(0, (1, None))\<close>. The second search resumes in the first inline box at index 1, and
  then enters the second inline box with the same nested cursor \<open>(1, None)\<close>, so the text
  box at its index 0 is skipped and is in no segment of the result. The same happens
  from the document \<open><div><span><div/></span><span>hi</span></div>\<close> through the whole
  pipeline.
\<close>

theorem block_in_inline_drops_content:
  "block_in_inline
     (BlockBox e0 None
        [LineBox e0 [InlineBox e1 [BlockBox e2 None []], InlineBox e3 [TextBox e3 t]]]) =
   Inr (BlockBox e0 None
          [AnonymousBlockBox e0 [LineBox e0 [InlineBox e1 []]],
           BlockBox e2 None [],
           AnonymousBlockBox e0 [LineBox e0 [InlineBox e1 [], InlineBox e3 []]]],
        False)
   \<and> build_formatting_structure (\<lambda>x. None) (\<lambda>uri. None)
     (Element (Some ''div'') (example_elem 0 ''block'' ''normal'') [] []
        [Element (Some ''span'') (example_elem 1 ''inline'' ''normal'') [] []
           [Element (Some ''div'') (example_elem 2 ''block'' ''normal'') [] [] []],
         Element (Some ''span'') (example_elem 3 ''inline'' ''normal'') [104, 105] [] []]) =
   Inr (BlockBox (example_elem 0 ''block'' ''normal'') None
          [AnonymousBlockBox (example_elem 0 ''block'' ''normal'')
             [LineBox (example_elem 0 ''block'' ''normal'')
                [InlineBox (example_elem 1 ''inline'' ''normal'') []]],
           BlockBox (example_elem 2 ''block'' ''normal'') None [],
           AnonymousBlockBox (example_elem 0 ''block'' ''normal'')
             [LineBox (example_elem 0 ''block'' ''normal'')
                [InlineBox (example_elem 1 ''inline'' ''normal'') [],
                 InlineBox (example_elem 3 ''inline'' ''normal'') []]]])"
  by (simp add: build_formatting_structure_def make_box_def splitter_eval upt_rec
      process_whitespace_def)

lemma lines_ok_child: "lines_ok b \<Longrightarrow> c \<in> set (box_children b) \<Longrightarrow> lines_ok c"
  by (cases b) (auto simp: list_all_iff)

lemma lines_ok_sub: "c \<in> subboxes b \<Longrightarrow> lines_ok b \<Longrightarrow> lines_ok c"
proof (induction b arbitrary: c rule: subboxes.induct)
  case (1 e cs)
  then show ?case by (fastforce simp: list_all_iff)
next
  case (2 e cs)
  then show ?case by (fastforce simp: list_all_iff)
next
  case (3 e m cs)
  then show ?case by (fastforce simp: list_all_iff)
next
  case (4 e cs)
  then show ?case by (fastforce simp: list_all_iff)
next
  case (5 e cs)
  then show ?case by (fastforce simp: list_all_iff)
qed simp_all

lemma set_children_kind [simp]:
  "is_LineBox (set_children b ds) = is_LineBox b"
  "is_InlineBox (set_children b ds) = is_InlineBox b"
  "is_BlockLevelBox (set_children b ds) = is_BlockLevelBox b"
  "is_BlockContainerBox (set_children b ds) = is_BlockContainerBox b"
  by (cases b; simp)+

lemma okc_inline: "is_InlineBox c \<Longrightarrow> list_all okc ds \<Longrightarrow> okc (set_children c ds)"
  by (cases c) (auto simp: okc_def list_all_iff)

lemma okc_good:
  "good c r \<Longrightarrow> \<not> is_BlockLevelBox c \<Longrightarrow> \<not> is_InlineBox c \<Longrightarrow> \<not> is_LineBox c \<Longrightarrow> okc (fst r)"
  by (cases c) (auto simp: okc_def good_def)

lemma okc_leaf: "\<not> is_ParentBox c \<Longrightarrow> okc c"
  by (cases c) (auto simp: okc_def)

lemma self_children:
  "list_all P (box_children b) \<Longrightarrow> \<exists>ds. b = set_children b ds \<and> list_all P ds"
  by (rule exI[of _ "box_children b"]) simp

lemma inner_intro:
  "inner_loop f (enumerate_skip box (case stack of None \<Rightarrow> 0 | Some (SkipStack i s) \<Rightarrow> i))
       (case stack of None \<Rightarrow> None | Some (SkipStack i s) \<Rightarrow> s) (empty box) False None
     = Inr (nb, ch, blk, r) \<Longrightarrow>
   inner_block_in_inline f box stack =
     Inr ((if blk = None \<and> \<not> (ch \<or> (case stack of None \<Rightarrow> 0 | Some (SkipStack i s) \<Rightarrow> i) \<noteq> 0)
           then (box, True) else (nb, False)), blk, r)"
  by (simp add: inner_block_in_inline.simps Let_def)

lemma search_result:
  "(\<And>c. c \<in> subboxes box \<Longrightarrow> lines_ok c \<Longrightarrow> \<not> is_LineBox c \<Longrightarrow> splits_well f c) \<Longrightarrow>
   list_all (\<lambda>c. \<not> is_LineBox c \<and> lines_ok c) (box_children box) \<Longrightarrow> is_ParentBox box \<Longrightarrow>
     \<exists>nb s blk r. inner_block_in_inline f box stack = Inr ((nb, s), blk, r)
        \<and> (\<exists>ds. nb = set_children box ds \<and> list_all okc ds) \<and> (s \<longrightarrow> nb = box)"
  "(\<And>c c'. c \<in> snd ` set items \<Longrightarrow> c' = c \<or> c' \<in> subboxes c \<Longrightarrow> lines_ok c' \<Longrightarrow>
        \<not> is_LineBox c' \<Longrightarrow> splits_well f c') \<Longrightarrow>
   list_all (\<lambda>c. \<not> is_LineBox c \<and> lines_ok c) (map snd items) \<Longrightarrow>
   is_ParentBox new_box \<Longrightarrow> list_all okc (box_children new_box) \<Longrightarrow>
     \<exists>nb ch blk r. inner_loop f items skip_stack new_box changed resume_at = Inr (nb, ch, blk, r)
        \<and> (\<exists>ds. nb = set_children new_box ds \<and> list_all okc ds)
        \<and> (changed \<longrightarrow> ch)
        \<and> (\<not> ch \<and> blk = None \<longrightarrow> list_all okc (map snd items))"
proof (induction f box stack and f items skip_stack new_box changed resume_at
    rule: inner_block_in_inline_inner_loop.induct)
  case (1 f box stack)
  let ?skip = "case stack of None \<Rightarrow> 0 | Some (SkipStack i s) \<Rightarrow> i"
  let ?ss = "case stack of None \<Rightarrow> None | Some (SkipStack i s) \<Rightarrow> s"
  have "\<exists>nb ch blk r. inner_loop f (enumerate_skip box ?skip) ?ss (empty box) False None
          = Inr (nb, ch, blk, r)
        \<and> (\<exists>ds. nb = set_children (empty box) ds \<and> list_all okc ds)
        \<and> (False \<longrightarrow> ch)
        \<and> (\<not> ch \<and> blk = None \<longrightarrow> list_all okc (map snd (enumerate_skip box ?skip)))"
  proof (rule "1.IH"[OF refl refl])
    fix c c' assume a: "c \<in> snd ` set (enumerate_skip box ?skip)" "c' = c \<or> c' \<in> subboxes c"
      "lines_ok c'" "\<not> is_LineBox c'"
    from a(1) obtain i where "(i, c) \<in> set (enumerate_skip box ?skip)" by auto
    then have "c' \<in> subboxes box" using a(2) by (rule subboxes_item)
    then show "splits_well f c'" using a(3,4) by (rule "1.prems"(1))
  next
    show "list_all (\<lambda>c. \<not> is_LineBox c \<and> lines_ok c) (map snd (enumerate_skip box ?skip))"
      using "1.prems"(2) by (auto simp: map_snd_enumerate_skip list_all_iff dest: in_set_dropD)
  next
    show "is_ParentBox (empty box)" using "1.prems"(3) by (simp add: empty_def)
  next
    show "list_all okc (box_children (empty box))" using "1.prems"(3) by (simp add: empty_def)
  qed
  then obtain nb ch blk r where
    l: "inner_loop f (enumerate_skip box ?skip) ?ss (empty box) False None = Inr (nb, ch, blk, r)"
    and e: "\<exists>ds. nb = set_children (empty box) ds \<and> list_all okc ds"
    and same: "\<not> ch \<and> blk = None \<longrightarrow> list_all okc (map snd (enumerate_skip box ?skip))"
    by blast
  from e obtain ds where "nb = set_children (empty box) ds" and nb2: "list_all okc ds" by blast
  then have nb1: "nb = set_children box ds" by (simp add: empty_def)
  note nb = nb1 nb2
  show ?case
  proof (cases "blk = None \<and> \<not> (ch \<or> ?skip \<noteq> 0)")
    case True
    then have "list_all okc (box_children box)" using same by (simp add: map_snd_enumerate_skip)
    from self_children[OF this] show ?thesis using inner_intro[OF l] True by auto
  next
    case False
    then show ?thesis using inner_intro[OF l] nb by auto
  qed
next
  case (2 f skip_stack new_box changed resume_at)
  from self_children[OF "2.prems"(4)] show ?case by auto
next
  case (3 f index child rest skip_stack new_box changed resume_at)
  note nbs = self_children[OF "3.prems"(4)]
  from "3.prems"(2) have cl: "\<not> is_LineBox child" "lines_ok child"
    and rl: "list_all (\<lambda>c. \<not> is_LineBox c \<and> lines_ok c) (map snd rest)" by simp_all
  show ?case
  proof (cases "is_BlockLevelBox child")
    case True
    then show ?thesis using nbs by (auto simp: inner_loop_block)
  next
    case False
    note nblk = False
    have "\<exists>nc same blk r. visit f child skip_stack resume_at = Inr ((nc, same), blk, r)
        \<and> okc nc \<and> (same \<longrightarrow> nc = child)"
    proof (cases "is_InlineBox child")
      case True
      have "\<exists>nb s blk r. inner_block_in_inline f child skip_stack = Inr ((nb, s), blk, r)
          \<and> (\<exists>ds. nb = set_children child ds \<and> list_all okc ds) \<and> (s \<longrightarrow> nb = child)"
      proof (rule "3.IH"(1)[OF nblk True])
        fix c assume "c \<in> subboxes child" "lines_ok c" "\<not> is_LineBox c"
        then show "splits_well f c" using "3.prems"(1)[of child c] by simp
      next
        show "list_all (\<lambda>c. \<not> is_LineBox c \<and> lines_ok c) (box_children child)"
          using cl(2) True by (cases child) simp_all
      next
        show "is_ParentBox child" using True by (cases child) simp_all
      qed
      then obtain nb s blk r ds where
        i: "inner_block_in_inline f child skip_stack = Inr ((nb, s), blk, r)"
        and d: "nb = set_children child ds" "list_all okc ds" and sm: "s \<longrightarrow> nb = child"
        by blast
      have "okc nb" unfolding d(1) using True d(2) by (rule okc_inline)
      then show ?thesis using True i sm by (auto simp: visit_def)
    next
      case ni: False
      show ?thesis
      proof (cases "is_ParentBox child")
        case True
        have "splits_well f child" using "3.prems"(1)[of child child] cl by simp
        then obtain r where r: "f child = Inr r" "good child r" by (auto simp: splits_well_def)
        have "okc (fst r)" using okc_good[OF r(2) nblk ni cl(1)] .
        moreover have "snd r \<longrightarrow> fst r = child" using r(2) by (auto simp: good_def split: if_splits)
        ultimately show ?thesis using ni True r(1)
          by (cases r) (auto simp: visit_def)
      next
        case False
        then show ?thesis using ni by (auto simp: visit_def okc_leaf)
      qed
    qed
    then obtain nc same blk r where
      v: "visit f child skip_stack resume_at = Inr ((nc, same), blk, r)"
      and nc: "okc nc" "same \<longrightarrow> nc = child" by blast
    let ?nb1 = "add_child new_box nc"
    have p1: "is_ParentBox ?nb1" using "3.prems"(3) by (simp add: add_child_parent)
    have c1: "list_all okc (box_children ?nb1)"
      using "3.prems"(3,4) nc(1) by (simp add: add_child_parent)
    have s1: "?nb1 = set_children new_box (box_children new_box @ [nc])"
      using "3.prems"(3) by (simp add: add_child_parent)
    show ?thesis
    proof (cases blk)
      case (Some b)
      then show ?thesis using v s1 c1 "3.prems"(3)
        by (auto simp: inner_loop_visit[OF nblk] add_child_parent)
    next
      case None
      have "\<exists>nb ch blk' r'. inner_loop f rest skip_stack ?nb1 (changed \<or> \<not> same) r
            = Inr (nb, ch, blk', r')
        \<and> (\<exists>ds. nb = set_children ?nb1 ds \<and> list_all okc ds)
        \<and> ((changed \<or> \<not> same) \<longrightarrow> ch)
        \<and> (\<not> ch \<and> blk' = None \<longrightarrow> list_all okc (map snd rest))"
      proof (rule "3.IH"(2)[OF nblk v[unfolded visit_def] refl refl refl refl refl None])
        fix c c' assume "c \<in> snd ` set rest" "c' = c \<or> c' \<in> subboxes c"
          "lines_ok c'" "\<not> is_LineBox c'"
        then show "splits_well f c'" using "3.prems"(1)[of c c'] by auto
      qed (rule rl p1 c1)+
      then obtain nb ch blk' r' ds where
        l: "inner_loop f rest skip_stack ?nb1 (changed \<or> \<not> same) r = Inr (nb, ch, blk', r')"
        and nb: "nb = set_children ?nb1 ds" "list_all okc ds"
        and ch: "(changed \<or> \<not> same) \<longrightarrow> ch"
        and sm: "\<not> ch \<and> blk' = None \<longrightarrow> list_all okc (map snd rest)" by blast
      have "nb = set_children new_box ds" using nb(1) s1 by simp
      moreover have "\<not> ch \<and> blk' = None \<longrightarrow> okc child" using ch nc by auto
      ultimately show ?thesis using v None l nb(2) ch sm
        by (auto simp: inner_loop_visit[OF nblk])
    qed
  qed
qed

lemma line_of_okc:
  "is_LineBox child \<Longrightarrow> list_all okc ds \<Longrightarrow>
     lines_ok (set_children child ds) \<and> lines_split (set_children child ds)"
  by (cases child) (auto simp: okc_def list_all_iff)

lemma okb_anon:
  "is_LineBox child \<Longrightarrow> list_all okc ds \<Longrightarrow> okb (AnonymousBlockBox e [set_children child ds])"
  using line_of_okc[of child ds] by (simp add: okb_def)

lemma okb_good: "good c r \<Longrightarrow> \<not> is_LineBox c \<Longrightarrow> okb (fst r)"
  by (auto simp: okb_def good_def)

lemma okb_parent:
  "\<not> is_LineBox b \<Longrightarrow> list_all okb ds \<Longrightarrow>
     lines_ok (set_children b ds) \<and> lines_split (set_children b ds)"
  by (cases b) (auto simp: okb_def list_all_iff list_ex_iff)

lemma split_loop_result:
  "(\<And>c. c \<in> subboxes child \<Longrightarrow> lines_ok c \<Longrightarrow> \<not> is_LineBox c \<Longrightarrow> splits_well f c) \<Longrightarrow>
   is_LineBox child \<Longrightarrow> lines_ok child \<Longrightarrow> list_all okb acc \<Longrightarrow>
     \<exists>nl s acc'. split_loop f box child stack acc = Inr ((nl, s), acc')
        \<and> (\<exists>ds. nl = set_children child ds \<and> list_all okc ds) \<and> (s \<longrightarrow> nl = child)
        \<and> list_all okb acc'"
proof (induction f box child stack acc rule: split_loop.induct)
  case (1 f box child stack acc)
  have cl: "list_all (\<lambda>c. \<not> is_LineBox c \<and> lines_ok c) (box_children child)"
    using "1.prems"(2,3) by (cases child) simp_all
  have pc: "is_ParentBox child" using "1.prems"(2) by (cases child) simp_all
  from search_result(1)[of child f stack, OF "1.prems"(1) cl pc]
  obtain nl s blk r ds where
    i: "inner_block_in_inline f child stack = Inr ((nl, s), blk, r)"
    and d: "nl = set_children child ds" "list_all okc ds" and sm: "s \<longrightarrow> nl = child"
    by blast
  show ?case
  proof (cases blk)
    case None
    then show ?thesis using i d sm "1.prems"(4) by (auto simp: split_loop.simps[of f box child stack])
  next
    case (Some k)
    from search_found(1)[OF i[unfolded Some]] have k: "k \<in> subboxes child" "is_BlockLevelBox k"
      by auto
    have kl: "\<not> is_LineBox k" using k(2) by (cases k) simp_all
    have ko: "lines_ok k" using k(1) "1.prems"(3) by (rule lines_ok_sub)
    from "1.prems"(1)[OF k(1) ko kl] obtain k' s' where
      fk: "f k = Inr (k', s')" and g: "good k (k', s')" by (auto simp: splits_well_def)
    have "okb k'" using okb_good[OF g kl] by simp
    moreover have "okb (AnonymousBlockBox (box_element box) [nl])"
      unfolding d(1) using "1.prems"(2) d(2) by (rule okb_anon)
    ultimately have a: "list_all okb (acc @ [AnonymousBlockBox (box_element box) [fst (nl, s)], k'])"
      using "1.prems"(4) by simp
    have "\<exists>nl' s'' acc'. split_loop f box child r
              (acc @ [AnonymousBlockBox (box_element box) [fst (nl, s)], k']) = Inr ((nl', s''), acc')
        \<and> (\<exists>ds. nl' = set_children child ds \<and> list_all okc ds) \<and> (s'' \<longrightarrow> nl' = child)
        \<and> list_all okb acc'"
      by (rule "1.IH"[OF i refl refl Some fk refl "1.prems"(1) "1.prems"(2) "1.prems"(3) a])
    then show ?thesis using i Some fk by (simp add: split_loop.simps[of f box child stack])
  qed
qed

lemma children_loop_result:
  "\<forall>c \<in> set cs. \<not> is_LineBox c \<and> splits_well block_in_inline c \<Longrightarrow>
     \<exists>ds ch'. block_in_inline_children box cs acc ch = Inr (acc @ ds, ch')
        \<and> list_all okb ds \<and> (ch \<longrightarrow> ch') \<and> (\<not> ch' \<longrightarrow> ds = cs)"
proof (induction cs arbitrary: acc ch)
  case Nil
  show ?case by simp
next
  case (Cons c cs)
  from Cons.prems obtain c' s where c: "block_in_inline c = Inr (c', s)" "good c (c', s)"
    and nl: "\<not> is_LineBox c" by (auto simp: splits_well_def)
  have o: "okb c'" using okb_good[OF c(2) nl] by simp
  have e: "s \<longrightarrow> c' = c" using c(2) by (auto simp: good_def split: if_splits)
  from Cons.IH[of "acc @ [c']" "ch \<or> \<not> s"] Cons.prems obtain ds ch' where
    l: "block_in_inline_children box cs (acc @ [c']) (ch \<or> \<not> s) = Inr ((acc @ [c']) @ ds, ch')"
    and d: "list_all okb ds" "(ch \<or> \<not> s) \<longrightarrow> ch'" "\<not> ch' \<longrightarrow> ds = cs" by auto
  have "block_in_inline_children box (c # cs) acc ch = Inr (acc @ c' # ds, ch')"
    using c(1) nl l by simp
  then show ?case using o e d by auto
qed

declare block_in_inline.simps(1) [simp del]

lemma splits_well_intro:
  assumes "f b = Inr (b', s)" and "b' = set_children b ds"
    and "lines_ok b' \<and> lines_split b'" and "s \<Longrightarrow> b' = b"
  shows "splits_well f b"
proof -
  have "\<exists>ds. b' = set_children b ds" using assms(2) by blast
  then have "good b (b', s)" using assms(3,4) by (simp add: good_def)
  then show ?thesis using assms(1) unfolding splits_well_def by blast
qed

lemma lines_ok_line_child:
  assumes "lines_ok b" and "list_ex is_LineBox (box_children b)"
  shows "\<exists>l. box_children b = [l] \<and> is_LineBox l \<and> lines_ok l"
proof -
  have "length (box_children b) = 1 \<and> list_all lines_ok (box_children b)"
    using assms by (cases b) (auto simp: list_all_iff list_ex_iff)
  then obtain l where l: "box_children b = [l]" "lines_ok l"
    by (cases "box_children b") auto
  with assms(2) show ?thesis by simp
qed

lemma block_in_inline_line_child:
  assumes "box_children b = [l]" and "is_LineBox l"
    and "split_loop block_in_inline b l None [] = Inr ((nl, s), acc)"
  shows "block_in_inline b =
     (if acc \<noteq> [] then Inr (set_children b (acc @ [AnonymousBlockBox (box_element b) [nl]]), False)
      else if s then Inr (b, True) else Inr (set_children b [nl], False))"
proof -
  have p: "is_ParentBox b" using assms(1) by (cases b) simp_all
  show ?thesis
    by (subst block_in_inline.simps) (simp add: p assms)
qed

lemma block_in_inline_result:
  "lines_ok b \<Longrightarrow> \<not> is_LineBox b \<Longrightarrow> splits_well block_in_inline b"
proof (induction b rule: measure_induct_rule[of size])
  case (less b)
  have F: "splits_well block_in_inline c" if "c \<in> subboxes b" "lines_ok c" "\<not> is_LineBox c" for c
    using less.IH[OF subboxes_size[OF that(1)] that(2,3)] .
  show ?case
  proof (cases "is_ParentBox b")
    case False
    then have "block_in_inline b = Inr (b, True)" by (simp add: block_in_inline.simps(1))
    moreover have "b = set_children b []" "lines_ok b \<and> lines_split b"
      using False by (cases b; simp)+
    ultimately show ?thesis by (rule splits_well_intro) simp
  next
    case True
    note p = True
    show ?thesis
    proof (cases "list_ex is_LineBox (box_children b)")
      case True
      from lines_ok_line_child[OF less.prems(1) True] obtain l where
        l: "box_children b = [l]" "is_LineBox l" "lines_ok l" by blast
      have sub: "c \<in> subboxes b" if "c \<in> subboxes l" for c
        using that l(1) by (subst subboxes_children) auto
      have "\<exists>nl s acc'. split_loop block_in_inline b l None [] = Inr ((nl, s), acc')
        \<and> (\<exists>ds. nl = set_children l ds \<and> list_all okc ds) \<and> (s \<longrightarrow> nl = l)
        \<and> list_all okb acc'"
        by (rule split_loop_result) (use F sub l in auto)
      then obtain nl s acc ds where
        sl: "split_loop block_in_inline b l None [] = Inr ((nl, s), acc)"
        and d: "nl = set_children l ds" "list_all okc ds" and sm: "s \<longrightarrow> nl = l"
        and a: "list_all okb acc" by blast
      note r = block_in_inline_line_child[OF l(1,2) sl]
      have nlo: "lines_ok nl \<and> lines_split nl \<and> is_LineBox nl"
        using line_of_okc[OF l(2) d(2)] l(2) d(1) by simp
      have bc: "is_BlockContainerBox b"
        using less.prems(1) l(1,2) by (cases b) (auto simp: list_all_iff)
      show ?thesis
      proof (cases "acc \<noteq> []")
        case True
        have "list_all okb (acc @ [AnonymousBlockBox (box_element b) [nl]])"
          using a okb_anon[OF l(2) d(2), of "box_element b"] d(1) by simp
        note o = okb_parent[OF less.prems(2) this]
        have "block_in_inline b =
            Inr (set_children b (acc @ [AnonymousBlockBox (box_element b) [nl]]), False)"
          using r True by simp
        then show ?thesis using refl o by (rule splits_well_intro) simp
      next
        case False
        have o: "lines_ok (set_children b [nl]) \<and> lines_split (set_children b [nl])"
          using nlo bc by (cases b) simp_all
        have e: "s \<Longrightarrow> set_children b [nl] = b" using sm l(1) by (simp add: set_children_same)
        show ?thesis
        proof (cases s)
          case True
          have "block_in_inline b = Inr (set_children b [nl], True)"
            using r False True e by simp
          then show ?thesis using refl o by (rule splits_well_intro) (use e True in simp)
        next
          case s: False
          have "block_in_inline b = Inr (set_children b [nl], False)"
            using r False s by simp
          then show ?thesis using refl o by (rule splits_well_intro) simp
        qed
      qed
    next
      case False
      have "\<forall>c \<in> set (box_children b). \<not> is_LineBox c \<and> splits_well block_in_inline c"
      proof
        fix c assume c: "c \<in> set (box_children b)"
        then have nl: "\<not> is_LineBox c" using False by (auto simp: list_ex_iff)
        have "c \<in> subboxes b" using c by (subst subboxes_children) auto
        from F[OF this lines_ok_child[OF less.prems(1) c] nl] nl
        show "\<not> is_LineBox c \<and> splits_well block_in_inline c" by simp
      qed
      from children_loop_result[OF this, of b "[]" False] obtain ds ch' where
        l: "block_in_inline_children b (box_children b) [] False = Inr (ds, ch')"
        and d: "list_all okb ds" "\<not> ch' \<longrightarrow> ds = box_children b" by auto
      have e: "\<not> ch' \<Longrightarrow> set_children b ds = b" using d(2) by (simp add: set_children_same)
      have "block_in_inline b = Inr (set_children b ds, \<not> ch')"
        using e by (subst block_in_inline.simps) (simp add: p l)
      then show ?thesis using refl okb_parent[OF less.prems(2) d(1)]
        by (rule splits_well_intro) (use e in simp)
    qed
  qed
qed

lemma okc_inline_children: "okc c \<Longrightarrow> is_InlineBox c \<Longrightarrow> list_all okc (box_children c)"
  by (cases c) (auto simp: okc_def list_all_iff)

lemma okc_line_children:
  "lines_ok l \<Longrightarrow> lines_split l \<Longrightarrow> is_LineBox l \<Longrightarrow> list_all okc (box_children l)"
  by (cases l) (auto simp: okc_def list_all_iff)

lemma lines_split_child:
  "lines_split b \<Longrightarrow> c \<in> set (box_children b) \<Longrightarrow> lines_split c"
  by (cases b) (auto simp: list_all_iff)

lemma search_fixpoint:
  "(\<And>c. c \<in> subboxes box \<Longrightarrow> \<not> is_LineBox c \<Longrightarrow> lines_ok c \<Longrightarrow> lines_split c \<Longrightarrow>
        f c = Inr (c, True)) \<Longrightarrow>
   list_all okc (box_children box) \<Longrightarrow> stack = None \<Longrightarrow>
     inner_block_in_inline f box stack = Inr ((box, True), None, None)"
  "(\<And>c c'. c \<in> snd ` set items \<Longrightarrow> c' = c \<or> c' \<in> subboxes c \<Longrightarrow> \<not> is_LineBox c' \<Longrightarrow>
        lines_ok c' \<Longrightarrow> lines_split c' \<Longrightarrow> f c' = Inr (c', True)) \<Longrightarrow>
   list_all okc (map snd items) \<Longrightarrow> skip_stack = None \<Longrightarrow> \<not> changed \<Longrightarrow> resume_at = None \<Longrightarrow>
     \<exists>nb. inner_loop f items skip_stack new_box changed resume_at = Inr (nb, False, None, None)"
proof (induction f box stack and f items skip_stack new_box changed resume_at
    rule: inner_block_in_inline_inner_loop.induct)
  case (1 f box stack)
  have "\<exists>nb. inner_loop f (enumerate_skip box 0) None (empty box) False None
          = Inr (nb, False, None, None)"
  proof (rule "1.IH"[unfolded "1.prems"(3) option.case, OF refl refl])
    fix c c' assume a: "c \<in> snd ` set (enumerate_skip box 0)" "c' = c \<or> c' \<in> subboxes c"
      "\<not> is_LineBox c'" "lines_ok c'" "lines_split c'"
    from a(1) obtain i where "(i, c) \<in> set (enumerate_skip box 0)" by auto
    then have "c' \<in> subboxes box" using a(2) by (rule subboxes_item)
    then show "f c' = Inr (c', True)" using a(3,4,5) by (rule "1.prems"(1))
  next
    show "list_all okc (map snd (enumerate_skip box 0))"
      using "1.prems"(2) by (simp add: map_snd_enumerate_skip)
  qed simp_all
  then obtain nb where
    "inner_loop f (enumerate_skip box 0) None (empty box) False None = Inr (nb, False, None, None)"
    by blast
  then show ?case using "1.prems"(3) inner_intro[of f box None nb False None None] by simp
next
  case (2 f skip_stack new_box changed resume_at)
  then show ?case by simp
next
  case (3 f index child rest skip_stack new_box changed resume_at)
  from "3.prems"(2) have oc: "okc child" and orest: "list_all okc (map snd rest)" by simp_all
  have nblk: "\<not> is_BlockLevelBox child" using oc by (cases child) (simp_all add: okc_def)
  have v: "visit f child skip_stack resume_at = Inr ((child, True), None, None)"
  proof (cases "is_InlineBox child")
    case True
    have "inner_block_in_inline f child skip_stack = Inr ((child, True), None, None)"
    proof (rule "3.IH"(1)[OF nblk True])
      fix c assume "c \<in> subboxes child" "\<not> is_LineBox c" "lines_ok c" "lines_split c"
      then show "f c = Inr (c, True)" using "3.prems"(1)[of child c] by simp
    qed (use okc_inline_children[OF oc True] "3.prems"(3) in simp_all)
    then show ?thesis using True by (simp add: visit_def)
  next
    case False
    show ?thesis
    proof (cases "is_ParentBox child")
      case True
      have "f child = Inr (child, True)"
        using "3.prems"(1)[of child child] oc by (simp add: okc_def)
      then show ?thesis using False True "3.prems"(5) by (simp add: visit_def)
    next
      case np: False
      then show ?thesis using False "3.prems"(5) by (simp add: visit_def)
    qed
  qed
  have "\<exists>nb. inner_loop f rest skip_stack (add_child new_box child) (changed \<or> \<not> True) None
      = Inr (nb, False, None, None)"
  proof (rule "3.IH"(2)[OF nblk v[unfolded visit_def] refl refl refl refl refl refl])
    fix c c' assume "c \<in> snd ` set rest" "c' = c \<or> c' \<in> subboxes c"
      "\<not> is_LineBox c'" "lines_ok c'" "lines_split c'"
    then show "f c' = Inr (c', True)" using "3.prems"(1)[of c c'] by auto
  qed (use orest "3.prems"(3,4) in simp_all)
  then show ?case using v by (simp add: inner_loop_visit[OF nblk])
qed

lemma children_loop_fixpoint:
  "\<forall>c \<in> set cs. \<not> is_LineBox c \<and> block_in_inline c = Inr (c, True) \<Longrightarrow>
     block_in_inline_children box cs acc False = Inr (acc @ cs, False)"
  by (induction cs arbitrary: acc) simp_all

lemma block_in_inline_fixpoint:
  "lines_ok b \<Longrightarrow> lines_split b \<Longrightarrow> \<not> is_LineBox b \<Longrightarrow> block_in_inline b = Inr (b, True)"
proof (induction b rule: measure_induct_rule[of size])
  case (less b)
  have F: "block_in_inline c = Inr (c, True)"
    if "c \<in> subboxes b" "\<not> is_LineBox c" "lines_ok c" "lines_split c" for c
    using less.IH[OF subboxes_size[OF that(1)] that(3,4,2)] .
  show ?case
  proof (cases "is_ParentBox b")
    case False
    then show ?thesis by (simp add: block_in_inline.simps(1))
  next
    case True
    note p = True
    show ?thesis
    proof (cases "list_ex is_LineBox (box_children b)")
      case True
      from lines_ok_line_child[OF less.prems(1) True] obtain l where
        l: "box_children b = [l]" "is_LineBox l" "lines_ok l" by blast
      have ls: "lines_split l" using less.prems(2) l(1) by (auto intro: lines_split_child)
      have sub: "c \<in> subboxes b" if "c \<in> subboxes l" for c
        using that l(1) by (subst subboxes_children) auto
      have "inner_block_in_inline block_in_inline l None = Inr ((l, True), None, None)"
        by (rule search_fixpoint(1)) (use F sub okc_line_children[OF l(3) ls l(2)] in auto)
      then have "split_loop block_in_inline b l None [] = Inr ((l, True), [])"
        by (simp add: split_loop.simps)
      from block_in_inline_line_child[OF l(1,2) this] show ?thesis by simp
    next
      case False
      have "\<forall>c \<in> set (box_children b). \<not> is_LineBox c \<and> block_in_inline c = Inr (c, True)"
      proof
        fix c assume c: "c \<in> set (box_children b)"
        then have nl: "\<not> is_LineBox c" using False by (auto simp: list_ex_iff)
        have "c \<in> subboxes b" using c by (subst subboxes_children) auto
        from F[OF this nl lines_ok_child[OF less.prems(1) c] lines_split_child[OF less.prems(2) c]] nl
        show "\<not> is_LineBox c \<and> block_in_inline c = Inr (c, True)" by simp
      qed
      from children_loop_fixpoint[OF this, of b "[]"] show ?thesis
        by (subst block_in_inline.simps) (simp add: p)
    qed
  qed
qed

text \<open>
  C2. The splitter applied to a tree that satisfies its structural precondition (every
  line box is the only child of a block container) succeeds, and in its result no line
  box holds a block-level box among its children or among the children of its inline
  boxes, at any depth of inline boxes; an inline-block box in a line is a block container
  of its own and may hold block-level boxes. A second application returns the very box
  it was given, unchanged, and so does the first application where nothing is to split.
\<close>

theorem splitter_fixpoint:
  assumes "lines_ok b" and "\<not> is_LineBox b"
  shows "\<exists>b' s. block_in_inline b = Inr (b', s) \<and> lines_split b'
           \<and> block_in_inline b' = Inr (b', True)
           \<and> (if s then b' = b else True)
           \<and> (if lines_split b then b' = b \<and> s else True)"
proof -
  from block_in_inline_result[OF assms] obtain b' s where
    r: "block_in_inline b = Inr (b', s)" and g: "good b (b', s)"
    by (auto simp: splits_well_def)
  from g have "\<exists>ds. b' = set_children b ds" and o: "lines_ok b'" "lines_split b'"
    and e: "if s then b' = b else True" by (cases s; simp add: good_def)+
  then obtain ds where d: "b' = set_children b ds" by blast
  have nl: "\<not> is_LineBox b'" using assms(2) d by simp
  have f: "block_in_inline b' = Inr (b', True)" using o nl by (rule block_in_inline_fixpoint)
  have "b' = b \<and> s" if "lines_split b"
    using block_in_inline_fixpoint[OF assms(1) that assms(2)] r by simp
  then show ?thesis using r o(2) f e by auto
qed

theorem splitter_fixpoint_witness:
  "block_in_inline
     (BlockBox (example_elem 0 ''block'' ''normal'') None
        [LineBox (example_elem 0 ''block'' ''normal'')
           [InlineBox (example_elem 1 ''inline'' ''normal'')
              [TextBox (example_elem 1 ''inline'' ''normal'') [97],
               BlockBox (example_elem 2 ''block'' ''normal'') None []]]]) =
   Inr (BlockBox (example_elem 0 ''block'' ''normal'') None
          [AnonymousBlockBox (example_elem 0 ''block'' ''normal'')
             [LineBox (example_elem 0 ''block'' ''normal'')
                [InlineBox (example_elem 1 ''inline'' ''normal'')
                   [TextBox (example_elem 1 ''inline'' ''normal'') [97]]]],
           BlockBox (example_elem 2 ''block'' ''normal'') None [],
           AnonymousBlockBox (example_elem 0 ''block'' ''normal'')
             [LineBox (example_elem 0 ''block'' ''normal'')
                [InlineBox (example_elem 1 ''inline'' ''normal'') []]]],
        False)
   \<and> (\<exists>b' s. block_in_inline
        (BlockBox (example_elem 0 ''block'' ''normal'') None
          [LineBox (example_elem 0 ''block'' ''normal'')
             [InlineBox (example_elem 1 ''inline'' ''normal'')
                [TextBox (example_elem 1 ''inline'' ''normal'') [97],
                 BlockBox (example_elem 2 ''block'' ''normal'') None []]]]) = Inr (b', s)
        \<and> lines_split b' \<and> block_in_inline b' = Inr (b', True))"
proof -
  let ?b = "BlockBox (example_elem 0 ''block'' ''normal'') None
        [LineBox (example_elem 0 ''block'' ''normal'')
           [InlineBox (example_elem 1 ''inline'' ''normal'')
              [TextBox (example_elem 1 ''inline'' ''normal'') [97],
               BlockBox (example_elem 2 ''block'' ''normal'') None []]]]"
  have o: "lines_ok ?b" by simp
  have n: "\<not> is_LineBox ?b" by simp
  have v: "block_in_inline ?b =
   Inr (BlockBox (example_elem 0 ''block'' ''normal'') None
          [AnonymousBlockBox (example_elem 0 ''block'' ''normal'')
             [LineBox (example_elem 0 ''block'' ''normal'')
                [InlineBox (example_elem 1 ''inline'' ''normal'')
                   [TextBox (example_elem 1 ''inline'' ''normal'') [97]]]],
           BlockBox (example_elem 2 ''block'' ''normal'') None [],
           AnonymousBlockBox (example_elem 0 ''block'' ''normal'')
             [LineBox (example_elem 0 ''block'' ''normal'')
                [InlineBox (example_elem 1 ''inline'' ''normal'') []]]],
        False)"
    by (simp add: block_in_inline.simps(1) splitter_eval upt_rec)
  from splitter_fixpoint[OF o n] have
    "\<exists>b' s. block_in_inline ?b = Inr (b', s) \<and> lines_split b'
        \<and> block_in_inline b' = Inr (b', True)" by blast
  with v show ?thesis by blast
qed

text \<open>
  An inline-block box in a line keeps its block-level children: the tree built for
  \<open><p><span style="display: inline-block"><div/></span></p>\<close> has a line box with a
  block box below it, and the splitter returns it as it is. A line box with a sibling
  violates the precondition and makes the splitter fail.
\<close>

theorem line_keeps_block_in_inline_block:
  "build_formatting_structure (\<lambda>x. None) (\<lambda>uri. None)
     (Element (Some ''p'') (example_elem 0 ''block'' ''normal'') [] []
        [Element (Some ''span'') (example_elem 1 ''inline-block'' ''normal'') [] []
           [Element (Some ''div'') (example_elem 2 ''block'' ''normal'') [] [] []]]) =
   Inr (BlockBox (example_elem 0 ''block'' ''normal'') None
          [LineBox (example_elem 0 ''block'' ''normal'')
             [InlineBlockBox (example_elem 1 ''inline-block'' ''normal'')
                [BlockBox (example_elem 2 ''block'' ''normal'') None []]]])
   \<and> block_in_inline
       (BlockBox (example_elem 0 ''block'' ''normal'') None
          [LineBox (example_elem 0 ''block'' ''normal'')
             [InlineBlockBox (example_elem 1 ''inline-block'' ''normal'')
                [BlockBox (example_elem 2 ''block'' ''normal'') None []]]]) =
     Inr (BlockBox (example_elem 0 ''block'' ''normal'') None
          [LineBox (example_elem 0 ''block'' ''normal'')
             [InlineBlockBox (example_elem 1 ''inline-block'' ''normal'')
                [BlockBox (example_elem 2 ''block'' ''normal'') None []]]], True)
   \<and> line_with_block
       (BlockBox (example_elem 0 ''block'' ''normal'') None
          [LineBox (example_elem 0 ''block'' ''normal'')
             [InlineBlockBox (example_elem 1 ''inline-block'' ''normal'')
                [BlockBox (example_elem 2 ''block'' ''normal'') None []]]])
   \<and> block_in_inline
       (BlockBox (example_elem 0 ''block'' ''normal'') None
          [LineBox (example_elem 0 ''block'' ''normal'') [],
           TextBox (example_elem 0 ''block'' ''normal'') [97]]) = Inl AssertionError"
  by (simp add: build_formatting_structure_def make_box_def block_in_inline.simps(1)
      splitter_eval upt_rec process_whitespace_def)

end
